theory Spec2Isabelle
  imports Complex_Main "HOL-Library.Multiset" "HOL-Library.Log_Nat"
begin

section \<open>JavaScript strings and attribute values\<close>

text \<open>
  The importers live in \<^verbatim>\<open>frontend/src/VisioImportModal.jsx\<close> and \<^verbatim>\<open>frontend/src/main.jsx\<close>
  (the latter holds a second copy of \<^verbatim>\<open>parseVisioXml\<close> and the text-to-flow adapter
  \<^verbatim>\<open>handleGenerate\<close>).  Reading XML text into DOM elements is the browser's work; the
  model starts from the elements: each \<^verbatim>\<open>getAttribute\<close> result is a \<open>string option\<close>
  (\<open>None\<close> is JavaScript's \<^verbatim>\<open>null\<close>).  A string is the list of the bytes of its UTF-8
  form, a surrogate without its partner in the same three-byte form as any other code
  unit of that size.  Both files are modules, hence strict code, and each call is
  modelled from the built-in objects as the page loads them.
\<close>

fun truthy :: "string option \<Rightarrow> bool" where
  "truthy None = False"
| "truthy (Some s) = (s \<noteq> [])"

text \<open>\<^verbatim>\<open>a || d\<close> for an attribute \<open>a\<close> and a string \<open>d\<close>.\<close>

definition str_or :: "string option \<Rightarrow> string \<Rightarrow> string" where
  "str_or a d = (case a of None \<Rightarrow> d | Some s \<Rightarrow> if s = [] then d else s)"

text \<open>A property key: \<^verbatim>\<open>obj[null]\<close> reads and writes the property named \<^verbatim>\<open>"null"\<close>.\<close>

definition key_of :: "string option \<Rightarrow> string" where
  "key_of a = (case a of None \<Rightarrow> ''null'' | Some s \<Rightarrow> s)"

text \<open>
  \<^verbatim>\<open>toLowerCase\<close> on the ASCII letters; the model covers names and labels whose
  upper-case letters are ASCII.  For other texts the comparisons the code makes still
  come out the same, since it compares lower-cased text with ASCII words only and no
  character outside ASCII lower-cases to a text of ASCII letters that occurs in those
  words (the Kelvin sign gives \<^verbatim>\<open>k\<close>, the dotted capital I gives \<^verbatim>\<open>i\<close> followed by a
  combining dot); only the case of the stored master name can differ.
\<close>

definition lower_char :: "char \<Rightarrow> char" where
  "lower_char c =
     (let n = (of_char c :: nat) in if 65 \<le> n \<and> n \<le> 90 then char_of (n + 32) else c)"

definition toLowerCase :: "string \<Rightarrow> string" where
  "toLowerCase s = map lower_char s"

fun startsWith :: "string \<Rightarrow> string \<Rightarrow> bool" where
  "startsWith s [] = True"
| "startsWith [] (p # ps) = False"
| "startsWith (c # cs) (p # ps) = (c = p \<and> startsWith cs ps)"

fun str_includes :: "string \<Rightarrow> string \<Rightarrow> bool" where
  "str_includes [] p = (p = [])"
| "str_includes (c # cs) p = (startsWith (c # cs) p \<or> str_includes cs p)"

text \<open>
  The white space that \<^verbatim>\<open>trim\<close> and \<^verbatim>\<open>\s\<close> strip: TAB, LF, VT, FF, CR, SP, U+00A0,
  U+1680, U+2000 to U+200A, U+2028, U+2029, U+202F, U+205F, U+3000 and U+FEFF, each in
  UTF-8.  None of these byte sequences begins inside another character.
\<close>

definition white_space :: "string list" where
  "white_space =
     [[CHR 0x09], [CHR 0x0A], [CHR 0x0B], [CHR 0x0C], [CHR 0x0D], [CHR 0x20],
      [CHR 0xC2, CHR 0xA0], [CHR 0xE1, CHR 0x9A, CHR 0x80],
      [CHR 0xE2, CHR 0x80, CHR 0x80], [CHR 0xE2, CHR 0x80, CHR 0x81],
      [CHR 0xE2, CHR 0x80, CHR 0x82], [CHR 0xE2, CHR 0x80, CHR 0x83],
      [CHR 0xE2, CHR 0x80, CHR 0x84], [CHR 0xE2, CHR 0x80, CHR 0x85],
      [CHR 0xE2, CHR 0x80, CHR 0x86], [CHR 0xE2, CHR 0x80, CHR 0x87],
      [CHR 0xE2, CHR 0x80, CHR 0x88], [CHR 0xE2, CHR 0x80, CHR 0x89],
      [CHR 0xE2, CHR 0x80, CHR 0x8A], [CHR 0xE2, CHR 0x80, CHR 0xA8],
      [CHR 0xE2, CHR 0x80, CHR 0xA9], [CHR 0xE2, CHR 0x80, CHR 0xAF],
      [CHR 0xE2, CHR 0x81, CHR 0x9F], [CHR 0xE3, CHR 0x80, CHR 0x80],
      [CHR 0xEF, CHR 0xBB, CHR 0xBF]]"

text \<open>The rest of \<open>s\<close> after the first of the words \<open>ws\<close> that \<open>s\<close> begins with.\<close>

fun after_one :: "string list \<Rightarrow> string \<Rightarrow> string option" where
  "after_one [] s = None"
| "after_one (w # ws) s =
     (if w \<noteq> [] \<and> startsWith s w then Some (drop (length w) s) else after_one ws s)"

function strip_leading :: "string list \<Rightarrow> string \<Rightarrow> string" where
  "strip_leading ws s = (case after_one ws s of None \<Rightarrow> s | Some r \<Rightarrow> strip_leading ws r)"
  by pat_completeness auto
termination
proof (relation "measure (\<lambda>(ws, s). length s)")
  show "wf (measure (\<lambda>(ws, s). length s))" by simp
next
  have sw: "\<And>s w. startsWith s w \<Longrightarrow> w \<noteq> [] \<Longrightarrow> s \<noteq> []"
    by (metis startsWith.simps(2) neq_Nil_conv)
  have "\<And>ws s r. after_one ws s = Some r \<Longrightarrow> length r < length s"
  proof -
    fix ws :: "string list" and s r
    show "after_one ws s = Some r \<Longrightarrow> length r < length s"
      by (induction ws) (auto split: if_splits dest: sw)
  qed
  then show "\<And>ws s x2. after_one ws s = Some x2 \<Longrightarrow>
      ((ws, x2), ws, s) \<in> measure (\<lambda>(ws, s). length s)"
    by simp
qed

definition trim :: "string \<Rightarrow> string" where
  "trim s = rev (strip_leading (map rev white_space) (rev (strip_leading white_space s)))"

text \<open>\<^verbatim>\<open>s.replace(/\s+/g, ' ')\<close>: every run of white space becomes one blank.\<close>

function collapse_ws :: "string \<Rightarrow> string" where
  "collapse_ws [] = []"
| "collapse_ws (c # cs) =
     (case after_one white_space (c # cs) of
        None \<Rightarrow> c # collapse_ws cs
      | Some r \<Rightarrow> CHR '' '' # collapse_ws (strip_leading white_space r))"
  by pat_completeness auto
termination
proof (relation "measure length")
  show "wf (measure length)" by simp
next
  show "\<And>c cs. after_one white_space (c # cs) = None \<Longrightarrow> (cs, c # cs) \<in> measure length"
    by simp
next
  have sw: "\<And>s w. startsWith s w \<Longrightarrow> w \<noteq> [] \<Longrightarrow> s \<noteq> []"
    by (metis startsWith.simps(2) neq_Nil_conv)
  have a: "\<And>ws s r. after_one ws s = Some r \<Longrightarrow> length r < length s"
  proof -
    fix ws :: "string list" and s r
    show "after_one ws s = Some r \<Longrightarrow> length r < length s"
      by (induction ws) (auto split: if_splits dest: sw)
  qed
  have b: "\<And>ws s. length (strip_leading ws s) \<le> length s"
  proof -
    fix ws :: "string list" and s
    show "length (strip_leading ws s) \<le> length s"
    proof (induction ws s rule: strip_leading.induct)
      case (1 ws s)
      show ?case
      proof (cases "after_one ws s")
        case None
        then show ?thesis by simp
      next
        case (Some r)
        with 1 a [OF Some] show ?thesis by simp
      qed
    qed
  qed
  show "\<And>c cs x2. after_one white_space (c # cs) = Some x2 \<Longrightarrow>
          (strip_leading white_space x2, c # cs) \<in> measure length"
    using a b by (metis in_measure le_less_trans)
qed

declare strip_leading.simps [simp del]

text \<open>
  \<^verbatim>\<open>s.slice(0, k)\<close> keeps the first \<open>k\<close> UTF-16 code units.  The byte that begins a
  character tells how many units the character takes: two when its UTF-8 form has four
  bytes, else one; the bytes that continue a character take none.  When the cut falls
  inside a pair of units, the first unit of the pair stays, alone.
\<close>

definition units :: "char \<Rightarrow> nat" where
  "units c =
     (let n = (of_char c :: nat)
      in if n < 128 then 1 else if n < 192 then 0 else if n < 240 then 1 else 2)"

definition first_unit :: "string \<Rightarrow> string" where
  "first_unit s =
     (let b0 = (of_char (s ! 0) :: nat); b1 = (of_char (s ! 1) :: nat);
          b2 = (of_char (s ! 2) :: nat)
      in if length s < 3 then []
         else [CHR 0xED, char_of (160 + ((b0 mod 8) * 4 + (b1 div 16) mod 4 - 1)),
               char_of (128 + ((b1 mod 16) * 4 + (b2 div 16) mod 4))])"

fun slice :: "nat \<Rightarrow> string \<Rightarrow> string" where
  "slice k [] = []"
| "slice k (c # cs) =
     (if units c \<le> k then c # slice (k - units c) cs
      else if k = 1 then first_unit (c # cs)
      else [])"

text \<open>The decimal numeral that a template string prints for an array index.\<close>

fun show_nat :: "nat \<Rightarrow> string" where
  "show_nat n =
     (if n < 10 then [char_of (48 + n)]
      else show_nat (n div 10) @ [char_of (48 + n mod 10)])"

declare show_nat.simps [simp del]

section \<open>Numbers\<close>

text \<open>
  A JavaScript number is a binary64 value.  \<open>to_double x\<close> is the value nearest to the
  real \<open>x\<close>, ties going to the even significand: with \<open>2 ^ e \<le> \<bar>x\<bar> < 2 ^ (e + 1)\<close>
  the values around \<open>x\<close> are the multiples of \<open>2 ^ (e - 52)\<close>.  Every arithmetic
  operation returns the \<open>to_double\<close> of the exact result.  The model covers the normal
  range (magnitudes from \<open>2 ^ - 1022\<close> up to the largest finite value); \<^verbatim>\<open>NaN\<close> and the
  infinities are left out.
\<close>

definition exponent :: "real \<Rightarrow> int" where
  "exponent x = (if 1 \<le> x then bitlen \<lfloor>x\<rfloor> - 1 else - bitlen (\<lceil>1 / x\<rceil> - 1))"

definition pow2 :: "int \<Rightarrow> real" where
  "pow2 e = (if 0 \<le> e then 2 ^ nat e else 1 / 2 ^ nat (- e))"

definition round_even :: "real \<Rightarrow> int" where
  "round_even m =
     (let f = \<lfloor>m\<rfloor>; d = m - of_int f
      in if d < 1 / 2 then f else if 1 / 2 < d then f + 1 else if even f then f else f + 1)"

definition to_double :: "real \<Rightarrow> real" where
  "to_double x =
     (if x = 0 then 0
      else (let u = pow2 (exponent \<bar>x\<bar> - 52)
            in sgn x * of_int (round_even (\<bar>x\<bar> / u)) * u))"

text \<open>\<^verbatim>\<open>parseFloat\<close> of a text that is the decimal numeral of \<open>x\<close>.\<close>

definition parseFloat :: "real \<Rightarrow> real" where
  "parseFloat x = to_double x"

text \<open>\<^verbatim>\<open>Math.round\<close> rounds half up.\<close>

definition Math_round :: "real \<Rightarrow> real" where
  "Math_round r = of_int \<lfloor>r + 1 / 2\<rfloor>"

section \<open>Stencil catalog and shape classification\<close>

definition RESULT_MASTERS :: "string list" where
  "RESULT_MASTERS = [''terminator'', ''start/end'', ''start'', ''end'', ''terminal'']"

definition CONNECTOR_MASTERS :: "string list" where
  "CONNECTOR_MASTERS =
     [''dynamic connector'', ''straight connector'', ''curved connector'',
      ''elbow connector'', ''connector'']"

record master_el =
  master_ID :: "string option"
  master_NameU :: "string option"
  master_Name :: "string option"

record master_info =
  nameU :: string
  name :: string

definition set_master :: "(string option \<rightharpoonup> master_info) \<Rightarrow> master_el \<Rightarrow> (string option \<rightharpoonup> master_info)" where
  "set_master mm m =
     mm(master_ID m \<mapsto>
        \<lparr> nameU = trim (toLowerCase (str_or (master_NameU m) (str_or (master_Name m) ''''))),
          name = trim (toLowerCase (str_or (master_Name m) '''')) \<rparr>)"

text \<open>\<open>None\<close> is a package without \<^verbatim>\<open>masters.xml\<close> (\<^verbatim>\<open>mastersXml = null\<close>).\<close>

definition parseMasters :: "master_el list option \<Rightarrow> (string option \<rightharpoonup> master_info)" where
  "parseMasters mastersXml =
     (case mastersXml of None \<Rightarrow> Map.empty | Some ms \<Rightarrow> foldl set_master Map.empty ms)"

datatype role = Question | Result | Connector

text \<open>\<^verbatim>\<open>masterInfo.nameU || masterInfo.name\<close>\<close>

definition master_key :: "master_info \<Rightarrow> string" where
  "master_key mi = (if nameU mi \<noteq> [] then nameU mi else name mi)"

definition classifyShape :: "master_info option \<Rightarrow> string \<Rightarrow> role" where
  "classifyShape masterInfo labelText =
     (let label = toLowerCase labelText in
      case masterInfo of
        None \<Rightarrow>
          if str_includes label ''escalat'' \<or> str_includes label ''resolv''
             \<or> startsWith label ''result''
          then Result else Question
      | Some mi \<Rightarrow>
          if master_key mi \<in> set RESULT_MASTERS then Result
          else if master_key mi \<in> set CONNECTOR_MASTERS then Connector
          else Question)"

section \<open>Objects used as dictionaries\<close>

text \<open>
  \<^verbatim>\<open>connectorMap\<close>, \<^verbatim>\<open>idMap\<close> and \<^verbatim>\<open>aiIdToTempId\<close> are objects created by \<^verbatim>\<open>{}\<close> and
  read at keys the input supplies.  Reading a key that was never written still finds the
  members every object inherits from \<^verbatim>\<open>Object.prototype\<close>: eleven functions and, under
  \<^verbatim>\<open>__proto__\<close>, the prototype itself.  All of them are true in a condition.
\<close>

definition Object_function_keys :: "string list" where
  "Object_function_keys =
     [''constructor'', ''hasOwnProperty'', ''isPrototypeOf'', ''propertyIsEnumerable'',
      ''toLocaleString'', ''toString'', ''valueOf'',
      ''__defineGetter__'', ''__defineSetter__'', ''__lookupGetter__'', ''__lookupSetter__'']"

definition Object_prototype_keys :: "string list" where
  "Object_prototype_keys =
     [''constructor'', ''hasOwnProperty'', ''isPrototypeOf'', ''propertyIsEnumerable'',
      ''toLocaleString'', ''toString'', ''valueOf'', ''__proto__'',
      ''__defineGetter__'', ''__defineSetter__'', ''__lookupGetter__'', ''__lookupSetter__'']"

section \<open>Wiring table\<close>

text \<open>
  The loop over the \<^verbatim>\<open>Connect\<close> elements writes through \<^verbatim>\<open>connectorMap[fromSheet].from =
  toSheet\<close>, and the object it writes to is whatever the lookup finds: an entry of the
  table, one of the inherited functions, \<^verbatim>\<open>Object.prototype\<close> itself, or a string that
  an earlier record put on the prototype under \<^verbatim>\<open>from\<close> or \<^verbatim>\<open>to\<close>.  So the state of the
  loop is the table together with the \<^verbatim>\<open>from\<close> and \<^verbatim>\<open>to\<close> properties of those built-in
  objects.  Writing a property of a string raises a \<^verbatim>\<open>TypeError\<close> in strict code and
  ends the loop; \<open>thrown\<close> records it.

  An own property is \<open>None\<close> when the object has none, \<open>Some None\<close> when it holds
  \<^verbatim>\<open>null\<close>, \<open>Some (Some s)\<close> when it holds the string \<open>s\<close>.
\<close>

record connect_el =
  FromSheet :: "string option"
  ToSheet :: "string option"
  FromPart :: "string option"

record wire =
  from_end :: "string option option"
  to_end :: "string option option"

definition no_ends :: wire where
  "no_ends = \<lparr> from_end = None, to_end = None \<rparr>"

datatype which_end = Source | Target

definition get_end :: "which_end \<Rightarrow> wire \<Rightarrow> string option option" where
  "get_end e w = (case e of Source \<Rightarrow> from_end w | Target \<Rightarrow> to_end w)"

definition set_end :: "which_end \<Rightarrow> string option \<Rightarrow> wire \<Rightarrow> wire" where
  "set_end e v w = (case e of Source \<Rightarrow> w \<lparr> from_end := Some v \<rparr> | Target \<Rightarrow> w \<lparr> to_end := Some v \<rparr>)"

record wiring =
  entries :: "string \<rightharpoonup> wire"
  function_ends :: "string \<rightharpoonup> wire"
  prototype :: wire
  thrown :: bool

definition pristine :: wiring where
  "pristine = \<lparr> entries = Map.empty, function_ends = Map.empty, prototype = no_ends, thrown = False \<rparr>"

text \<open>The value of \<^verbatim>\<open>connectorMap[k]\<close>.\<close>

datatype found = Entry wire | Function string | Prototype | Primitive "string option" | Undefined

definition lookup :: "wiring \<Rightarrow> string \<Rightarrow> found" where
  "lookup h k =
     (case entries h k of
        Some w \<Rightarrow> Entry w
      | None \<Rightarrow>
          if k \<in> set Object_function_keys then Function k
          else if k = ''__proto__'' then Prototype
          else if k = ''from'' then
            (case from_end (prototype h) of Some v \<Rightarrow> Primitive v | None \<Rightarrow> Undefined)
          else if k = ''to'' then
            (case to_end (prototype h) of Some v \<Rightarrow> Primitive v | None \<Rightarrow> Undefined)
          else Undefined)"

fun truthy_found :: "found \<Rightarrow> bool" where
  "truthy_found (Entry w) = True"
| "truthy_found (Function k) = True"
| "truthy_found Prototype = True"
| "truthy_found (Primitive v) = truthy v"
| "truthy_found Undefined = False"

text \<open>
  \<^verbatim>\<open>x?.from\<close> and \<^verbatim>\<open>x?.to\<close>, with \<^verbatim>\<open>undefined\<close> and \<^verbatim>\<open>null\<close> both \<open>None\<close>: the own
  property if there is one, else the one of \<^verbatim>\<open>Object.prototype\<close>, which a table entry,
  a function and a string all inherit from.
\<close>

definition inherited_end :: "which_end \<Rightarrow> wiring \<Rightarrow> string option" where
  "inherited_end e h = (case get_end e (prototype h) of None \<Rightarrow> None | Some v \<Rightarrow> v)"

definition own_or_inherited :: "which_end \<Rightarrow> wiring \<Rightarrow> wire \<Rightarrow> string option" where
  "own_or_inherited e h w = (case get_end e w of Some v \<Rightarrow> v | None \<Rightarrow> inherited_end e h)"

definition read_end :: "which_end \<Rightarrow> wiring \<Rightarrow> found \<Rightarrow> string option" where
  "read_end e h x =
     (case x of
        Entry w \<Rightarrow> own_or_inherited e h w
      | Function k \<Rightarrow>
          (case function_ends h k of None \<Rightarrow> inherited_end e h | Some w \<Rightarrow> own_or_inherited e h w)
      | Prototype \<Rightarrow> inherited_end e h
      | Primitive (Some s) \<Rightarrow> inherited_end e h
      | Primitive None \<Rightarrow> None
      | Undefined \<Rightarrow> None)"

text \<open>\<^verbatim>\<open>connectorMap[k].from = v\<close> and \<^verbatim>\<open>connectorMap[k].to = v\<close>.\<close>

definition write_end :: "which_end \<Rightarrow> string option \<Rightarrow> string \<Rightarrow> wiring \<Rightarrow> wiring" where
  "write_end e v k h =
     (case lookup h k of
        Entry w \<Rightarrow> h \<lparr> entries := (entries h)(k \<mapsto> set_end e v w) \<rparr>
      | Function f \<Rightarrow>
          h \<lparr> function_ends := (function_ends h)(f \<mapsto>
                 set_end e v (case function_ends h f of None \<Rightarrow> no_ends | Some w \<Rightarrow> w)) \<rparr>
      | Prototype \<Rightarrow> h \<lparr> prototype := set_end e v (prototype h) \<rparr>
      | Primitive p \<Rightarrow> h \<lparr> thrown := True \<rparr>
      | Undefined \<Rightarrow> h \<lparr> thrown := True \<rparr>)"

text \<open>One \<^verbatim>\<open>Connect\<close> element; after a \<^verbatim>\<open>TypeError\<close> no further element is read.\<close>

definition add_connect :: "wiring \<Rightarrow> connect_el \<Rightarrow> wiring" where
  "add_connect h c =
     (if thrown h then h
      else
        (let k = key_of (FromSheet c);
             h1 = (if truthy_found (lookup h k) then h
                   else h \<lparr> entries := (entries h)(k \<mapsto> no_ends) \<rparr>);
             h2 = (if FromPart c = Some ''9'' then write_end Source (ToSheet c) k h1 else h1)
         in if thrown h2 then h2
            else if FromPart c = Some ''12'' then write_end Target (ToSheet c) k h2
            else h2))"

definition build_connectorMap :: "connect_el list \<Rightarrow> wiring" where
  "build_connectorMap cs = foldl add_connect pristine cs"

section \<open>Collecting shapes\<close>

text \<open>
  A \<^verbatim>\<open>Shape\<close> element: its attributes, the text content of its first \<^verbatim>\<open>Text\<close>
  descendant (\<open>None\<close> without one) and the numbers written in \<^verbatim>\<open>XForm > PinX\<close> and
  \<^verbatim>\<open>XForm > PinY\<close> (0 when the element is missing or empty).
\<close>

record shape_el =
  shape_ID :: "string option"
  shape_Type :: "string option"
  shape_Master :: "string option"
  shape_Text :: "string option"
  shape_PinX :: real
  shape_PinY :: real

record raw_shape =
  shapeId :: "string option"
  masterInfo :: "master_info option"
  masterKey :: string
  isTerminator :: bool
  label :: string
  pinX :: real
  pinY :: real

text \<open>An edge as pushed in step 2, before its endpoints are resolved.\<close>

record raw_edge =
  visioSrcId :: string
  visioTgtId :: string
  raw_tempId :: string
  raw_label :: string

definition collect_shape ::
  "(string option \<rightharpoonup> master_info) \<Rightarrow> wiring \<Rightarrow>
   raw_edge list \<times> raw_shape list \<Rightarrow> shape_el \<Rightarrow> raw_edge list \<times> raw_shape list" where
  "collect_shape masterMap connectorMap st shape =
     (let (edges, rawShapes) = st;
          sid = shape_ID shape;
          mi = (if truthy (shape_Master shape) then masterMap (shape_Master shape) else None);
          lbl = collapse_ws (trim (case shape_Text shape of None \<Rightarrow> [] | Some t \<Rightarrow> t));
          isEdgeType = (shape_Type shape = Some ''Edge'');
          isConnectorMaster =
            (case mi of None \<Rightarrow> False | Some m \<Rightarrow> master_key m \<in> set CONNECTOR_MASTERS);
          mk = (case mi of None \<Rightarrow> [] | Some m \<Rightarrow> master_key m);
          isTerm = (mk \<in> set [''terminator'', ''start/end'', ''start'', ''end'', ''terminal''])
      in
      if isEdgeType \<or> isConnectorMaster \<or> truthy_found (lookup connectorMap (key_of sid)) then
        (case (read_end Source connectorMap (lookup connectorMap (key_of sid)),
               read_end Target connectorMap (lookup connectorMap (key_of sid))) of
           (Some f, Some t) \<Rightarrow>
             if f \<noteq> [] \<and> t \<noteq> [] then
               (edges @ [\<lparr> visioSrcId = f, visioTgtId = t,
                           raw_tempId = ''import-edge-'' @ show_nat (length edges),
                           raw_label = lbl \<rparr>], rawShapes)
             else st
         | _ \<Rightarrow> st)
      else if lbl = [] then st
      else (edges, rawShapes @ [\<lparr> shapeId = sid, masterInfo = mi, masterKey = mk,
                                   isTerminator = isTerm, label = lbl,
                                   pinX = parseFloat (shape_PinX shape),
                                   pinY = parseFloat (shape_PinY shape) \<rparr>]))"

definition collect_shapes ::
  "(string option \<rightharpoonup> master_info) \<Rightarrow> wiring \<Rightarrow> shape_el list \<Rightarrow>
   raw_edge list \<times> raw_shape list" where
  "collect_shapes masterMap connectorMap shs = foldl (collect_shape masterMap connectorMap) ([], []) shs"

section \<open>Start shape\<close>

text \<open>
  \<^verbatim>\<open>Array.prototype.sort\<close> is stable; with a comparator that is a consistent order
  its result is the one stable arrangement, computed here by insertion.  The comparator
  returns a number and \<^verbatim>\<open>sort\<close> puts \<open>a\<close> before \<open>b\<close> when it is negative.
\<close>

fun insert_cmp :: "('a \<Rightarrow> 'a \<Rightarrow> real) \<Rightarrow> 'a \<Rightarrow> 'a list \<Rightarrow> 'a list" where
  "insert_cmp c x [] = [x]"
| "insert_cmp c x (y # ys) = (if c x y \<le> 0 then x # y # ys else y # insert_cmp c x ys)"

fun sort_cmp :: "('a \<Rightarrow> 'a \<Rightarrow> real) \<Rightarrow> 'a list \<Rightarrow> 'a list" where
  "sort_cmp c [] = []"
| "sort_cmp c (x # xs) = insert_cmp c x (sort_cmp c xs)"

text \<open>
  \<^verbatim>\<open>(a, b) => b.pinY - a.pinY || a.pinX - b.pinX\<close>.  The difference of two binary64
  values is zero only when they are equal and has the sign of the exact difference, and
  \<^verbatim>\<open>sort\<close> looks at the sign only.
\<close>

definition cmp_shape :: "raw_shape \<Rightarrow> raw_shape \<Rightarrow> real" where
  "cmp_shape a b = (if pinY b - pinY a \<noteq> 0 then pinY b - pinY a else pinX a - pinX b)"

definition allTargetIds :: "raw_edge list \<Rightarrow> string list" where
  "allTargetIds edges = filter (\<lambda>t. t \<noteq> []) (map visioTgtId edges)"

definition has_incoming :: "raw_edge list \<Rightarrow> raw_shape \<Rightarrow> bool" where
  "has_incoming edges s =
     (case shapeId s of None \<Rightarrow> False | Some i \<Rightarrow> i \<in> set (allTargetIds edges))"

definition noIncoming :: "raw_edge list \<Rightarrow> raw_shape list \<Rightarrow> raw_shape list" where
  "noIncoming edges rawShapes = filter (\<lambda>s. \<not> has_incoming edges s) rawShapes"

text \<open>
  The start shape together with \<^verbatim>\<open>rawShapes\<close> as the expression leaves it: the third
  alternative of the \<^verbatim>\<open>||\<close> chain sorts the array itself.
\<close>

definition infer_start :: "raw_edge list \<Rightarrow> raw_shape list \<Rightarrow> raw_shape option \<times> raw_shape list" where
  "infer_start edges rawShapes =
     (case find isTerminator (noIncoming edges rawShapes) of
        Some s \<Rightarrow> (Some s, rawShapes)
      | None \<Rightarrow>
          (case sort_cmp cmp_shape (noIncoming edges rawShapes) of
             s # _ \<Rightarrow> (Some s, rawShapes)
           | [] \<Rightarrow>
               (let sorted = sort_cmp cmp_shape rawShapes
                in (case sorted of [] \<Rightarrow> None | s # _ \<Rightarrow> Some s, sorted))))"

text \<open>\<^verbatim>\<open>startShape?.shapeId || null\<close>\<close>

definition startShapeId_of :: "raw_shape option \<Rightarrow> string option" where
  "startShapeId_of startShape =
     (case startShape of None \<Rightarrow> None
      | Some s \<Rightarrow> if truthy (shapeId s) then shapeId s else None)"

section \<open>Nodes and edges\<close>

text \<open>
  The fields the two importers share; the Visio importer adds \<^verbatim>\<open>visioId\<close>, the
  text-to-flow adapter adds \<^verbatim>\<open>resolution\<close>.  \<open>pos_x\<close> and \<open>pos_y\<close> are
  \<^verbatim>\<open>position.x\<close> and \<^verbatim>\<open>position.y\<close>.
\<close>

record node =
  tempId :: string
  title :: string
  type :: role
  pos_x :: real
  pos_y :: real
  body :: string
  is_start :: bool
  masterName :: string

record visio_node = node +
  visioId :: "string option"

record ai_node = node +
  resolution :: string

text \<open>
  What a dictionary read returns: \<open>TempId s\<close> is the string \<open>s\<close>, \<open>Inherited k\<close> the
  function or object inherited under the name \<open>k\<close>.  Writing \<^verbatim>\<open>__proto__\<close> with a
  string stores nothing.
\<close>

datatype ref = TempId string | Inherited string

definition obj_get :: "(string \<rightharpoonup> string) \<Rightarrow> string \<Rightarrow> ref option" where
  "obj_get m k =
     (case m k of
        Some v \<Rightarrow> Some (TempId v)
      | None \<Rightarrow> if k \<in> set Object_prototype_keys then Some (Inherited k) else None)"

definition obj_set :: "(string \<rightharpoonup> string) \<Rightarrow> string \<Rightarrow> string \<Rightarrow> (string \<rightharpoonup> string)" where
  "obj_set m k v = (if k = ''__proto__'' then m else m(k \<mapsto> v))"

fun ref_truthy :: "ref option \<Rightarrow> bool" where
  "ref_truthy None = False"
| "ref_truthy (Some (TempId s)) = (s \<noteq> [])"
| "ref_truthy (Some (Inherited k)) = True"

record edge =
  edge_tempId :: string
  sourceId :: "ref option"
  targetId :: "ref option"
  edge_label :: string

text \<open>
  \<^verbatim>\<open>idMap[k]\<close> after the wiring loop left \<open>proto\<close> as the \<^verbatim>\<open>from\<close> and \<^verbatim>\<open>to\<close> of
  \<^verbatim>\<open>Object.prototype\<close>.
\<close>

definition idMap_get :: "wire \<Rightarrow> (string \<rightharpoonup> string) \<Rightarrow> string \<Rightarrow> ref option" where
  "idMap_get proto m k =
     (case m k of
        Some v \<Rightarrow> Some (TempId v)
      | None \<Rightarrow>
          if k \<in> set Object_prototype_keys then Some (Inherited k)
          else if k = ''from'' then
            (case from_end proto of Some (Some s) \<Rightarrow> Some (TempId s) | _ \<Rightarrow> None)
          else if k = ''to'' then
            (case to_end proto of Some (Some s) \<Rightarrow> Some (TempId s) | _ \<Rightarrow> None)
          else None)"

text \<open>Step 4, one shape: the state is \<^verbatim>\<open>nodes\<close>, \<^verbatim>\<open>idMap\<close> and \<^verbatim>\<open>nodeIndex\<close>.\<close>

definition build_node ::
  "string option \<Rightarrow> visio_node list \<times> (string \<rightharpoonup> string) \<times> nat \<Rightarrow> raw_shape \<Rightarrow>
   visio_node list \<times> (string \<rightharpoonup> string) \<times> nat" where
  "build_node startShapeId st s =
     (let (nodes, idMap, nodeIndex) = st;
          x = Math_round (to_double (pinX s * 96));
          y = Math_round (to_double (to_double (11 - pinY s) * 96));
          isStart = (shapeId s = startShapeId);
          nodeType = (if isStart then Question
                      else if isTerminator s then Result
                      else classifyShape (masterInfo s) (label s))
      in
      if nodeType = Connector then st
      else
        (let tid = ''import-node-'' @ show_nat nodeIndex
         in (nodes @ [\<lparr> tempId = tid, title = label s, type = nodeType,
                          pos_x = max 20 x, pos_y = max 20 y, body = [],
                          is_start = isStart,
                          masterName = (if masterKey s = [] then ''unknown'' else masterKey s),
                          visioId = shapeId s \<rparr>],
             obj_set idMap (key_of (shapeId s)) tid,
             Suc nodeIndex)))"

definition build_nodes ::
  "string option \<Rightarrow> raw_shape list \<Rightarrow> visio_node list \<times> (string \<rightharpoonup> string) \<times> nat" where
  "build_nodes startShapeId rawShapes = foldl (build_node startShapeId) ([], Map.empty, 0) rawShapes"

text \<open>\<^verbatim>\<open>idMap[k] || null\<close>\<close>

definition or_null :: "ref option \<Rightarrow> ref option" where
  "or_null r = (if ref_truthy r then r else None)"

definition resolve_edge :: "wire \<Rightarrow> (string \<rightharpoonup> string) \<Rightarrow> raw_edge \<Rightarrow> edge" where
  "resolve_edge proto idMap e =
     \<lparr> edge_tempId = raw_tempId e,
       sourceId = or_null (idMap_get proto idMap (visioSrcId e)),
       targetId = or_null (idMap_get proto idMap (visioTgtId e)),
       edge_label = raw_label e \<rparr>"

definition valid_edge :: "edge \<Rightarrow> bool" where
  "valid_edge e = (ref_truthy (sourceId e) \<and> ref_truthy (targetId e))"

section \<open>Fallback start node\<close>

text \<open>\<^verbatim>\<open>(a, b) => a.position.y - b.position.y || a.position.x - b.position.x\<close>\<close>

definition cmp_node :: "'a node_scheme \<Rightarrow> 'a node_scheme \<Rightarrow> real" where
  "cmp_node a b = (if pos_y a - pos_y b \<noteq> 0 then pos_y a - pos_y b else pos_x a - pos_x b)"

text \<open>
  \<^verbatim>\<open>nodes.find(n => n.tempId === t)\<close> followed by the two assignments to the node found.
\<close>

fun mark_fallback :: "string \<Rightarrow> visio_node list \<Rightarrow> visio_node list" where
  "mark_fallback t [] = []"
| "mark_fallback t (n # ns) =
     (if tempId n = t then n \<lparr> type := Question, is_start := True \<rparr> # ns
      else n # mark_fallback t ns)"

definition fallback_fires :: "visio_node list \<Rightarrow> bool" where
  "fallback_fires nodes = (\<not> list_ex is_start nodes \<and> nodes \<noteq> [])"

definition fallback_start :: "visio_node list \<Rightarrow> visio_node list" where
  "fallback_start nodes =
     (if fallback_fires nodes then
        (case sort_cmp cmp_node nodes of
           [] \<Rightarrow> nodes
         | s0 # _ \<Rightarrow> mark_fallback (tempId s0) nodes)
      else nodes)"

section \<open>The Visio importer\<close>

record visio_page =
  connects :: "connect_el list"
  shapes :: "shape_el list"

text \<open>The shapes kept as node candidates and the edges pushed in step 2.\<close>

definition rawShapes_of :: "visio_page \<Rightarrow> master_el list option \<Rightarrow> raw_shape list" where
  "rawShapes_of pageXml mastersXml =
     snd (collect_shapes (parseMasters mastersXml) (build_connectorMap (connects pageXml))
            (shapes pageXml))"

definition rawEdges_of :: "visio_page \<Rightarrow> master_el list option \<Rightarrow> raw_edge list" where
  "rawEdges_of pageXml mastersXml =
     fst (collect_shapes (parseMasters mastersXml) (build_connectorMap (connects pageXml))
            (shapes pageXml))"

text \<open>The node list after step 4, before the fallback looks at it.\<close>

definition assembled_nodes :: "visio_page \<Rightarrow> master_el list option \<Rightarrow> visio_node list" where
  "assembled_nodes pageXml mastersXml =
     (let edges = rawEdges_of pageXml mastersXml;
          (startShape, rawShapes) = infer_start edges (rawShapes_of pageXml mastersXml)
      in fst (build_nodes (startShapeId_of startShape) rawShapes))"

text \<open>
  The importer returns its nodes and edges unless the wiring loop raised; the other
  steps raise nothing.
\<close>

datatype js_error = TypeError

definition parseVisioXml ::
  "visio_page \<Rightarrow> master_el list option \<Rightarrow> js_error + (visio_node list \<times> edge list)" where
  "parseVisioXml pageXml mastersXml =
     (let connectorMap = build_connectorMap (connects pageXml)
      in if thrown connectorMap then Inl TypeError
         else
           (let edges = rawEdges_of pageXml mastersXml;
                (startShape, rawShapes) = infer_start edges (rawShapes_of pageXml mastersXml);
                (nodes, idMap, nodeIndex) = build_nodes (startShapeId_of startShape) rawShapes;
                validEdges = filter valid_edge (map (resolve_edge (prototype connectorMap) idMap) edges)
            in Inr (fallback_start nodes, validEdges)))"

text \<open>
  \<^verbatim>\<open>handleFile\<close> (and its copy \<^verbatim>\<open>handleVisioFile\<close>) once the package is open: the first
  page if there is one, the masters file (not an empty text) if there is one.  The
  warnings are the messages the handler pushes; \<open>Suggestion\<close> and \<open>DroppedEdges\<close> are
  pushed by the text-to-flow adapter only.  The handler catches what the importer raises
  and reports it as its error.
\<close>

datatype warning =
    NoMastersFile
  | NoConnectors
  | NoStartDetected
  | DetectedTypes nat nat
  | Suggestion string
  | DroppedEdges nat

datatype import_error = NoPagesFound | NoShapesWithText | NoNodesReturned | FailedToParse

definition handleFile ::
  "visio_page option \<Rightarrow> master_el list option \<Rightarrow>
   import_error + (visio_node list \<times> edge list \<times> warning list)" where
  "handleFile page mastersXml =
     (case page of
        None \<Rightarrow> Inl NoPagesFound
      | Some xmlStr \<Rightarrow>
          (let w1 = (if mastersXml = None then [NoMastersFile] else [])
           in
           case parseVisioXml xmlStr mastersXml of
             Inl err \<Rightarrow> Inl FailedToParse
           | Inr (allNodes, allEdges) \<Rightarrow>
               if allNodes = [] then Inl NoShapesWithText
               else
                 (let w2 = w1 @ (if allEdges = [] then [NoConnectors] else []);
                      w3 = w2 @ (if \<not> list_ex is_start allNodes then [NoStartDetected] else []);
                      resultCount = length (filter (\<lambda>n. type n = Result) allNodes);
                      questionCount = length (filter (\<lambda>n. type n = Question) allNodes);
                      w4 = w3 @ (if mastersXml \<noteq> None
                                 then [DetectedTypes questionCount resultCount] else [])
                  in Inr (allNodes, allEdges, w4))))"

section \<open>The text-to-flow adapter\<close>

text \<open>
  The response of the generation service as \<^verbatim>\<open>handleGenerate\<close> reads it.  An identifier
  is kept in its \<^verbatim>\<open>String(...)\<close> form, \<open>None\<close> when it is \<^verbatim>\<open>undefined\<close> or \<^verbatim>\<open>null\<close>;
  a coordinate is \<open>Some\<close> when \<^verbatim>\<open>typeof\<close> says \<^verbatim>\<open>number\<close>; \<open>gen_is_start\<close> is the truth
  value of \<^verbatim>\<open>n.is_start\<close>; \<open>gen_source\<close> and \<open>gen_target\<close> are \<^verbatim>\<open>String(e.source)\<close> and
  \<^verbatim>\<open>String(e.target)\<close>.
\<close>

record gen_node =
  gen_id :: "string option"
  gen_title :: "string option"
  gen_type :: "string option"
  gen_body :: "string option"
  gen_description :: "string option"
  gen_x :: "real option"
  gen_y :: "real option"
  gen_is_start :: bool
  gen_resolution :: "string option"

record gen_edge =
  gen_source :: string
  gen_target :: string
  gen_label :: "string option"

record gen_response =
  gen_nodes :: "gen_node list"
  gen_edges :: "gen_edge list"
  gen_suggestions :: "string list"

definition import_node_id :: "nat \<Rightarrow> string" where
  "import_node_id i = ''import-node-'' @ show_nat i"

text \<open>
  One round of the loop that fills \<^verbatim>\<open>aiIdToTempId\<close>.  \<^verbatim>\<open>String(i)\<close> is a numeral, never
  an inherited name, so the second assignment keeps an entry that is there and writes one
  that is missing.
\<close>

definition add_ai_id :: "(string \<rightharpoonup> string) \<Rightarrow> nat \<times> gen_node \<Rightarrow> (string \<rightharpoonup> string)" where
  "add_ai_id m p =
     (let (i, n) = p;
          m1 = (case gen_id n of None \<Rightarrow> m | Some k \<Rightarrow> obj_set m k (import_node_id i))
      in case m1 (show_nat i) of
           None \<Rightarrow> obj_set m1 (show_nat i) (import_node_id i)
         | Some v \<Rightarrow> if v \<noteq> [] then m1 else obj_set m1 (show_nat i) (import_node_id i))"

definition aiIdToTempId :: "gen_node list \<Rightarrow> (string \<rightharpoonup> string)" where
  "aiIdToTempId ns = foldl add_ai_id Map.empty (enumerate 0 ns)"

definition normalize_node :: "nat \<times> gen_node \<Rightarrow> ai_node" where
  "normalize_node p =
     (let (i, n) = p in
      \<lparr> tempId = import_node_id i,
        title = slice 80 (str_or (gen_title n) (''Step '' @ show_nat (i + 1))),
        type = (if gen_type n = Some ''result'' then Result else Question),
        pos_x = max 20 (case gen_x n of Some x \<Rightarrow> x | None \<Rightarrow> real ((i mod 4) * 300 + 60)),
        pos_y = max 20 (case gen_y n of Some y \<Rightarrow> y | None \<Rightarrow> real ((i div 4) * 180 + 60)),
        body = str_or (gen_body n) (str_or (gen_description n) []),
        is_start = gen_is_start n,
        masterName = ''AI-generated'',
        resolution = str_or (gen_resolution n) [] \<rparr>)"

text \<open>\<^verbatim>\<open>if (nodes.length > 0 && !nodes.some(n => n.is_start)) nodes[0].is_start = true\<close>\<close>

definition force_first_start :: "ai_node list \<Rightarrow> ai_node list" where
  "force_first_start nodes =
     (case nodes of
        [] \<Rightarrow> []
      | n # ns \<Rightarrow> if \<not> list_ex is_start nodes then n \<lparr> is_start := True \<rparr> # ns else nodes)"

definition generated_nodes :: "gen_response \<Rightarrow> ai_node list" where
  "generated_nodes data = force_first_start (map normalize_node (enumerate 0 (gen_nodes data)))"

definition map_edge :: "(string \<rightharpoonup> string) \<Rightarrow> nat \<times> gen_edge \<Rightarrow> edge" where
  "map_edge m p =
     (let (i, e) = p in
      \<lparr> edge_tempId = ''import-edge-'' @ show_nat i,
        sourceId = obj_get m (gen_source e),
        targetId = obj_get m (gen_target e),
        edge_label = str_or (gen_label e) [] \<rparr>)"

definition generated_edges :: "gen_response \<Rightarrow> edge list" where
  "generated_edges data =
     filter valid_edge
       (map (map_edge (aiIdToTempId (gen_nodes data))) (enumerate 0 (gen_edges data)))"

definition handleGenerate ::
  "gen_response \<Rightarrow> import_error + (ai_node list \<times> edge list \<times> warning list)" where
  "handleGenerate data =
     (let nodes = generated_nodes data;
          edges = generated_edges data;
          droppedEdgeCount = length (gen_edges data) - length edges;
          warnings = map Suggestion (gen_suggestions data)
                     @ (if droppedEdgeCount > 0 then [DroppedEdges droppedEdgeCount] else [])
      in if nodes = [] then Inl NoNodesReturned else Inr (nodes, edges, warnings))"

section \<open>Notions used in the statements\<close>

text \<open>Reading a decimal numeral back; it shows that \<open>show_nat\<close> is injective.\<close>

definition read_nat :: "string \<Rightarrow> nat" where
  "read_nat s = foldl (\<lambda>a c. 10 * a + (of_char c - 48)) 0 s"

text \<open>The type step 4 gives a shape, and the node it pushes as the \<open>i\<close>-th one.\<close>

definition node_type_for :: "string option \<Rightarrow> raw_shape \<Rightarrow> role" where
  "node_type_for startShapeId s =
     (if shapeId s = startShapeId then Question
      else if isTerminator s then Result
      else classifyShape (masterInfo s) (label s))"

definition node_for :: "string option \<Rightarrow> nat \<Rightarrow> raw_shape \<Rightarrow> visio_node" where
  "node_for startShapeId i s =
     \<lparr> tempId = import_node_id i, title = label s, type = node_type_for startShapeId s,
       pos_x = max 20 (Math_round (to_double (pinX s * 96))),
       pos_y = max 20 (Math_round (to_double (to_double (11 - pinY s) * 96))), body = [],
       is_start = (shapeId s = startShapeId),
       masterName = (if masterKey s = [] then ''unknown'' else masterKey s),
       visioId = shapeId s \<rparr>"

text \<open>
  The end a wiring entry holds after all records were read: the \<^verbatim>\<open>ToSheet\<close> of the last
  record of that connector with that discriminator, if there is one.
\<close>

definition last_end :: "string \<Rightarrow> string \<Rightarrow> connect_el list \<Rightarrow> string option option" where
  "last_end part k cs =
     (let rs = filter (\<lambda>c. key_of (FromSheet c) = k \<and> FromPart c = Some part) cs
      in if rs = [] then None else Some (ToSheet (last rs)))"

text \<open>Greatest \<open>pinY\<close>, then smallest \<open>pinX\<close>; smallest \<open>pos_y\<close>, then smallest \<open>pos_x\<close>.\<close>

definition topmost_leftmost :: "raw_shape list \<Rightarrow> raw_shape \<Rightarrow> bool" where
  "topmost_leftmost S s \<longleftrightarrow>
     s \<in> set S \<and> (\<forall>t \<in> set S. pinY t < pinY s \<or> (pinY t = pinY s \<and> pinX s \<le> pinX t))"

definition smallest_yx :: "visio_node list \<Rightarrow> visio_node \<Rightarrow> bool" where
  "smallest_yx N n \<longleftrightarrow>
     n \<in> set N \<and> (\<forall>m \<in> set N. pos_y n < pos_y m \<or> (pos_y n = pos_y m \<and> pos_x n \<le> pos_x m))"

text \<open>Step 2 read off one \<^verbatim>\<open>Shape\<close> element: its label, its master, whether it is taken
  for a connector, the wire it stands for when both ends are there, and the record kept
  for it otherwise.\<close>

definition shape_label :: "shape_el \<Rightarrow> string" where
  "shape_label shape = collapse_ws (trim (case shape_Text shape of None \<Rightarrow> [] | Some t \<Rightarrow> t))"

definition shape_masterInfo :: "(string option \<rightharpoonup> master_info) \<Rightarrow> shape_el \<Rightarrow> master_info option" where
  "shape_masterInfo masterMap shape =
     (if truthy (shape_Master shape) then masterMap (shape_Master shape) else None)"

definition is_connector_shape ::
  "(string option \<rightharpoonup> master_info) \<Rightarrow> wiring \<Rightarrow> shape_el \<Rightarrow> bool" where
  "is_connector_shape masterMap connectorMap shape \<longleftrightarrow>
     shape_Type shape = Some ''Edge''
     \<or> (case shape_masterInfo masterMap shape of None \<Rightarrow> False
         | Some m \<Rightarrow> master_key m \<in> set CONNECTOR_MASTERS)
     \<or> truthy_found (lookup connectorMap (key_of (shape_ID shape)))"

definition resolved_wire :: "wiring \<Rightarrow> string option \<Rightarrow> (string \<times> string) option" where
  "resolved_wire connectorMap sid =
     (case (read_end Source connectorMap (lookup connectorMap (key_of sid)),
            read_end Target connectorMap (lookup connectorMap (key_of sid))) of
        (Some f, Some t) \<Rightarrow> if f \<noteq> [] \<and> t \<noteq> [] then Some (f, t) else None
      | _ \<Rightarrow> None)"

definition raw_shape_of :: "(string option \<rightharpoonup> master_info) \<Rightarrow> shape_el \<Rightarrow> raw_shape" where
  "raw_shape_of masterMap shape =
     (let mk = (case shape_masterInfo masterMap shape of None \<Rightarrow> [] | Some m \<Rightarrow> master_key m)
      in \<lparr> shapeId = shape_ID shape, masterInfo = shape_masterInfo masterMap shape,
           masterKey = mk,
           isTerminator = (mk \<in> set [''terminator'', ''start/end'', ''start'', ''end'', ''terminal'']),
           label = shape_label shape,
           pinX = parseFloat (shape_PinX shape), pinY = parseFloat (shape_PinY shape) \<rparr>)"

text \<open>The node list step 4 builds when no shape is skipped.\<close>

definition nodes_for :: "string option \<Rightarrow> raw_shape list \<Rightarrow> visio_node list" where
  "nodes_for startShapeId rawShapes =
     map (\<lambda>(i, s). node_for startShapeId i s) (enumerate 0 rawShapes)"

text \<open>What an emitted edge can hold at an end: the \<open>tempId\<close> of one of the nodes, or a
  member inherited from \<^verbatim>\<open>Object.prototype\<close>.\<close>

definition endpoint_ok :: "string set \<Rightarrow> ref option \<Rightarrow> bool" where
  "endpoint_ok ids r \<longleftrightarrow>
     (\<exists>t \<in> ids. r = Some (TempId t))
     \<or> (\<exists>k \<in> set Object_prototype_keys. r = Some (Inherited k))"

text \<open>An end that is a string which the wiring loop put on \<^verbatim>\<open>Object.prototype\<close>.\<close>

definition inherited_string :: "wire \<Rightarrow> ref option \<Rightarrow> bool" where
  "inherited_string proto r \<longleftrightarrow>
     (\<exists>s. r = Some (TempId s) \<and> (from_end proto = Some (Some s) \<or> to_end proto = Some (Some s)))"

section \<open>Example documents\<close>

text \<open>
  The page of scenarios A and B: shapes 1, 2, 3 labelled Begin, Card valid? and Resolved,
  connectors 4 and 5 wiring 1 to 2 and 2 to 3, at any coordinates, and the stencil
  catalog of scenario A.
\<close>

definition ex_shape :: "string \<Rightarrow> string \<Rightarrow> string \<Rightarrow> real \<Rightarrow> real \<Rightarrow> shape_el" where
  "ex_shape i m t x y =
     \<lparr> shape_ID = Some i, shape_Type = Some ''Shape'', shape_Master = Some m,
       shape_Text = Some t, shape_PinX = x, shape_PinY = y \<rparr>"

definition ex_connector :: "string \<Rightarrow> shape_el" where
  "ex_connector i =
     \<lparr> shape_ID = Some i, shape_Type = Some ''Shape'', shape_Master = Some ''4'',
       shape_Text = None, shape_PinX = 0, shape_PinY = 0 \<rparr>"

definition ex_connect :: "string \<Rightarrow> string \<Rightarrow> string \<Rightarrow> connect_el" where
  "ex_connect f p t = \<lparr> FromSheet = Some f, ToSheet = Some t, FromPart = Some p \<rparr>"

definition ex_master :: "string \<Rightarrow> string \<Rightarrow> master_el" where
  "ex_master i n = \<lparr> master_ID = Some i, master_NameU = Some n, master_Name = Some n \<rparr>"

definition scenario_masters :: "master_el list" where
  "scenario_masters =
     [ex_master ''1'' ''Start/End'', ex_master ''2'' ''Decision'',
      ex_master ''3'' ''Terminator'', ex_master ''4'' ''Dynamic connector'']"

definition scenario_page :: "real \<Rightarrow> real \<Rightarrow> real \<Rightarrow> real \<Rightarrow> real \<Rightarrow> real \<Rightarrow> visio_page" where
  "scenario_page xa ya xb yb xc yc =
     \<lparr> connects = [ex_connect ''4'' ''9'' ''1'', ex_connect ''4'' ''12'' ''2'',
                   ex_connect ''5'' ''9'' ''2'', ex_connect ''5'' ''12'' ''3''],
       shapes = [ex_shape ''1'' ''1'' ''Begin'' xa ya, ex_shape ''2'' ''2'' ''Card valid?'' xb yb,
                 ex_shape ''3'' ''3'' ''Resolved'' xc yc, ex_connector ''4'', ex_connector ''5''] \<rparr>"

text \<open>Two shapes wired in a cycle, so that each has an incoming wire (scenario E).\<close>

definition cycle_page :: visio_page where
  "cycle_page =
     \<lparr> connects = [ex_connect ''3'' ''9'' ''1'', ex_connect ''3'' ''12'' ''2'',
                   ex_connect ''4'' ''9'' ''2'', ex_connect ''4'' ''12'' ''1''],
       shapes = [ex_shape ''1'' ''2'' ''Ask'' 2 6, ex_shape ''2'' ''2'' ''Retry'' 5 8,
                 ex_connector ''3'', ex_connector ''4''] \<rparr>"

text \<open>Scenario C: the record for the target end of connector 5 is missing.\<close>

definition scenario_C_page :: visio_page where
  "scenario_C_page =
     \<lparr> connects = [ex_connect ''4'' ''9'' ''1'', ex_connect ''4'' ''12'' ''2'',
                   ex_connect ''5'' ''9'' ''2''],
       shapes = [ex_shape ''1'' ''1'' ''Begin'' 4 9, ex_shape ''2'' ''2'' ''Card valid?'' 4 7,
                 ex_shape ''3'' ''3'' ''Resolved'' 4 5, ex_connector ''4'', ex_connector ''5''] \<rparr>"

text \<open>Two labelled shapes that carry the same \<^verbatim>\<open>ID\<close>, and a page whose topmost shape
  has the empty string as its \<^verbatim>\<open>ID\<close>.\<close>

definition duplicate_id_page :: visio_page where
  "duplicate_id_page =
     \<lparr> connects = [],
       shapes = [ex_shape ''7'' ''2'' ''Ask'' 2 6, ex_shape ''7'' ''2'' ''Retry'' 5 8] \<rparr>"

definition empty_id_page :: visio_page where
  "empty_id_page =
     \<lparr> connects = [],
       shapes = [ex_shape [] ''2'' ''Ask'' 2 8, ex_shape ''2'' ''2'' ''Retry'' 5 6] \<rparr>"

text \<open>
  A terminator that no wire points to and whose \<^verbatim>\<open>ID\<close> is the empty string, below a
  decision shape.
\<close>

definition empty_id_terminator_page :: visio_page where
  "empty_id_terminator_page =
     \<lparr> connects = [],
       shapes = [ex_shape [] ''3'' ''Done'' 2 6, ex_shape ''2'' ''2'' ''Check'' 5 8] \<rparr>"

text \<open>A labelled shape 5 glued to shape 2 by a record whose \<^verbatim>\<open>FromPart\<close> is neither 9
  nor 12.\<close>

definition glued_page :: visio_page where
  "glued_page =
     \<lparr> connects = [ex_connect ''5'' ''3'' ''2''],
       shapes = [ex_shape ''2'' ''2'' ''Step'' 2 6, ex_shape ''5'' ''2'' ''Note'' 5 8] \<rparr>"

text \<open>
  A record whose connector id is \<^verbatim>\<open>__proto__\<close>, and connector 5 with a record for its
  target end only; the same records followed by one whose connector id is \<^verbatim>\<open>from\<close>.
\<close>

definition prototype_page :: visio_page where
  "prototype_page =
     \<lparr> connects = [ex_connect ''__proto__'' ''9'' ''1'', ex_connect ''5'' ''12'' ''2''],
       shapes = [ex_shape ''1'' ''1'' ''Begin'' 4 9, ex_shape ''2'' ''2'' ''Card valid?'' 4 7,
                 ex_connector ''5''] \<rparr>"

definition raising_page :: visio_page where
  "raising_page =
     prototype_page \<lparr> connects := connects prototype_page @ [ex_connect ''from'' ''9'' ''2''] \<rparr>"

text \<open>A labelled shape whose \<^verbatim>\<open>ID\<close> is the name of an inherited function.\<close>

definition inherited_id_page :: visio_page where
  "inherited_id_page =
     \<lparr> connects = [],
       shapes = [ex_shape ''1'' ''1'' ''Begin'' 4 9, ex_shape ''constructor'' ''2'' ''Check'' 4 7] \<rparr>"

text \<open>A connector whose target end names a member every object inherits.\<close>

definition inherited_target_page :: visio_page where
  "inherited_target_page =
     \<lparr> connects = [ex_connect ''4'' ''9'' ''1'', ex_connect ''4'' ''12'' ''toString''],
       shapes = [ex_shape ''1'' ''1'' ''Begin'' 4 9, ex_connector ''4''] \<rparr>"

text \<open>Responses of the generation service.\<close>

definition ex_gen_node :: "string \<Rightarrow> real option \<Rightarrow> real option \<Rightarrow> bool \<Rightarrow> gen_node" where
  "ex_gen_node i x y st =
     \<lparr> gen_id = Some i, gen_title = None, gen_type = None, gen_body = None,
       gen_description = None, gen_x = x, gen_y = y, gen_is_start = st,
       gen_resolution = None \<rparr>"

definition ex_gen_edge :: "string \<Rightarrow> string \<Rightarrow> gen_edge" where
  "ex_gen_edge a b = \<lparr> gen_source = a, gen_target = b, gen_label = None \<rparr>"

definition two_start_response :: gen_response where
  "two_start_response =
     \<lparr> gen_nodes = [ex_gen_node ''a'' None None True, ex_gen_node ''b'' None None True],
       gen_edges = [ex_gen_edge ''a'' ''b''], gen_suggestions = [] \<rparr>"

definition unflagged_response :: gen_response where
  "unflagged_response =
     \<lparr> gen_nodes = [ex_gen_node ''a'' None None False, ex_gen_node ''b'' None None False],
       gen_edges = [ex_gen_edge ''a'' ''b''], gen_suggestions = [] \<rparr>"

text \<open>An edge whose target names no node and no inherited member.\<close>

definition dangling_edge_response :: gen_response where
  "dangling_edge_response =
     \<lparr> gen_nodes = [ex_gen_node ''a'' None None True],
       gen_edges = [ex_gen_edge ''a'' ''b''], gen_suggestions = [] \<rparr>"

definition inherited_key_response :: gen_response where
  "inherited_key_response =
     \<lparr> gen_nodes = [ex_gen_node ''a'' None None True],
       gen_edges = [ex_gen_edge ''constructor'' ''a''], gen_suggestions = [] \<rparr>"

definition positioned_response :: gen_response where
  "positioned_response =
     \<lparr> gen_nodes = [ex_gen_node ''a'' (Some 5) (Some (- 3)) True,
                    ex_gen_node ''b'' None None False],
       gen_edges = [ex_gen_edge ''a'' ''b''], gen_suggestions = [] \<rparr>"

section \<open>Decimal numerals\<close>

lemma of_char_digit: "d < 10 \<Longrightarrow> (of_char (char_of (48 + d)) :: nat) = 48 + d"
  by simp

lemma read_show_nat: "read_nat (show_nat n) = n"
proof (induction n rule: show_nat.induct)
  case (1 n)
  show ?case
  proof (cases "n < 10")
    case True
    then show ?thesis by (subst show_nat.simps) (simp add: read_nat_def)
  next
    case False
    have "n mod 10 < 10" by simp
    then have d: "(of_char (char_of (48 + n mod 10)) :: nat) = 48 + n mod 10"
      by (rule of_char_digit)
    from False 1 have "read_nat (show_nat (n div 10)) = n div 10" by simp
    with False d show ?thesis
      by (subst show_nat.simps) (simp add: read_nat_def)
  qed
qed

lemma show_nat_inj: "show_nat a = show_nat b \<Longrightarrow> a = b"
  by (metis read_show_nat)

lemma import_node_id_inj: "import_node_id a = import_node_id b \<Longrightarrow> a = b"
  by (simp add: import_node_id_def show_nat_inj)

section \<open>The comparator sort\<close>

lemma set_insert_cmp: "set (insert_cmp c x xs) = insert x (set xs)"
  by (induction xs) auto

lemma mset_insert_cmp: "mset (insert_cmp c x xs) = add_mset x (mset xs)"
  by (induction xs) auto

lemma mset_sort_cmp: "mset (sort_cmp c xs) = mset xs"
  by (induction xs) (auto simp: mset_insert_cmp)

lemma set_sort_cmp: "set (sort_cmp c xs) = set xs"
  by (induction xs) (auto simp: set_insert_cmp)

lemma length_sort_cmp: "length (sort_cmp c xs) = length xs"
  by (metis mset_sort_cmp size_mset)

lemma sort_cmp_Nil_iff: "sort_cmp c xs = [] \<longleftrightarrow> xs = []"
  by (metis length_0_conv length_sort_cmp)

lemma sorted_insert_cmp:
  assumes tot: "\<And>a b. c a b \<le> 0 \<or> c b a \<le> 0"
    and tr: "\<And>a b d. c a b \<le> 0 \<Longrightarrow> c b d \<le> 0 \<Longrightarrow> c a d \<le> 0"
  shows "sorted_wrt (\<lambda>a b. c a b \<le> 0) xs \<Longrightarrow> sorted_wrt (\<lambda>a b. c a b \<le> 0) (insert_cmp c x xs)"
proof (induction xs)
  case Nil
  then show ?case by simp
next
  case (Cons y ys)
  show ?case
  proof (cases "c x y \<le> 0")
    case True
    with Cons.prems tr show ?thesis by auto
  next
    case False
    with tot have "c y x \<le> 0" by blast
    with False Cons show ?thesis by (auto simp: set_insert_cmp)
  qed
qed

lemma sorted_sort_cmp:
  assumes tot: "\<And>a b. c a b \<le> 0 \<or> c b a \<le> 0"
    and tr: "\<And>a b d. c a b \<le> 0 \<Longrightarrow> c b d \<le> 0 \<Longrightarrow> c a d \<le> 0"
  shows "sorted_wrt (\<lambda>a b. c a b \<le> 0) (sort_cmp c xs)"
  by (induction xs) (auto intro: sorted_insert_cmp [OF tot tr])

lemma cmp_shape_le:
  "cmp_shape a b \<le> 0 \<longleftrightarrow> pinY b < pinY a \<or> (pinY a = pinY b \<and> pinX a \<le> pinX b)"
  by (auto simp: cmp_shape_def)

lemma cmp_node_le:
  "cmp_node a b \<le> 0 \<longleftrightarrow> pos_y a < pos_y b \<or> (pos_y a = pos_y b \<and> pos_x a \<le> pos_x b)"
  by (auto simp: cmp_node_def)

lemma sorted_shapes: "sorted_wrt (\<lambda>a b. cmp_shape a b \<le> 0) (sort_cmp cmp_shape xs)"
  by (rule sorted_sort_cmp) (auto simp: cmp_shape_le)

lemma sorted_nodes: "sorted_wrt (\<lambda>a b. cmp_node a b \<le> 0) (sort_cmp cmp_node xs)"
  by (rule sorted_sort_cmp) (auto simp: cmp_node_le)

text \<open>
  The sort is stable: elements the comparator calls equal keep their order.
\<close>

lemma insert_cmp_stable:
  assumes "P x" "\<And>y. P y \<Longrightarrow> c x y \<le> 0"
  shows "filter P (insert_cmp c x xs) = x # filter P xs"
  using assms by (induction xs) auto

lemma insert_cmp_filter_other: "\<not> P x \<Longrightarrow> filter P (insert_cmp c x xs) = filter P xs"
  by (induction xs) auto

lemma sort_cmp_stable:
  assumes "\<And>x y. P x \<Longrightarrow> P y \<Longrightarrow> c x y \<le> 0"
  shows "filter P (sort_cmp c xs) = filter P xs"
proof (induction xs)
  case Nil
  then show ?case by simp
next
  case (Cons x xs)
  show ?case
  proof (cases "P x")
    case True
    with assms have "\<And>y. P y \<Longrightarrow> c x y \<le> 0" by blast
    from insert_cmp_stable [of P x c, OF True this] Cons True show ?thesis by simp
  next
    case False
    with Cons show ?thesis by (simp add: insert_cmp_filter_other)
  qed
qed

lemma sort_shapes_stable:
  "filter (\<lambda>s. pinY s = y \<and> pinX s = x) (sort_cmp cmp_shape xs)
     = filter (\<lambda>s. pinY s = y \<and> pinX s = x) xs"
  by (rule sort_cmp_stable) (simp add: cmp_shape_def)

lemma sort_nodes_stable:
  "filter (\<lambda>n. pos_y n = y \<and> pos_x n = x) (sort_cmp cmp_node ns)
     = filter (\<lambda>n. pos_y n = y \<and> pos_x n = x) ns"
  by (rule sort_cmp_stable) (simp add: cmp_node_def)

section \<open>Step 2: shapes and wires\<close>

lemma collect_shape_eq:
  "collect_shape mm cm (es, rs) sh =
     (if is_connector_shape mm cm sh then
        (case resolved_wire cm (shape_ID sh) of
           None \<Rightarrow> (es, rs)
         | Some (f, t) \<Rightarrow>
             (es @ [\<lparr> visioSrcId = f, visioTgtId = t,
                      raw_tempId = ''import-edge-'' @ show_nat (length es),
                      raw_label = shape_label sh \<rparr>], rs))
      else if shape_label sh = [] then (es, rs)
      else (es, rs @ [raw_shape_of mm sh]))"
  unfolding collect_shape_def is_connector_shape_def resolved_wire_def raw_shape_of_def
    shape_label_def shape_masterInfo_def Let_def
  by (simp split: option.split)

lemma collect_shapes_snoc:
  "collect_shapes mm cm (shs @ [sh]) = collect_shape mm cm (collect_shapes mm cm shs) sh"
  by (simp add: collect_shapes_def)


lemma raw_shape_of_not_connector:
  "\<not> is_connector_shape mm cm sh \<Longrightarrow>
     classifyShape (masterInfo (raw_shape_of mm sh)) (label (raw_shape_of mm sh)) \<noteq> Connector"
  by (auto simp: is_connector_shape_def raw_shape_of_def classifyShape_def Let_def
      split: option.splits)


lemma collect_shapes_shapes_ok:
  "s \<in> set (snd (collect_shapes mm cm shs)) \<Longrightarrow>
     label s \<noteq> [] \<and> classifyShape (masterInfo s) (label s) \<noteq> Connector"
proof (induction shs arbitrary: s rule: rev_induct)
  case Nil
  then show ?case by (simp add: collect_shapes_def)
next
  case (snoc sh shs)
  obtain es rs where st: "collect_shapes mm cm shs = (es, rs)" by (cases "collect_shapes mm cm shs")
  have lbl: "label (raw_shape_of mm sh) = shape_label sh"
    by (simp add: raw_shape_of_def Let_def)
  from snoc.prems show ?case
    unfolding collect_shapes_snoc st collect_shape_eq
    using snoc.IH [unfolded st] raw_shape_of_not_connector [of mm cm sh] lbl
    by (auto split: if_splits option.splits)
qed

lemma build_node_eq:
  "build_node sid (ns, im, k) s =
     (if node_type_for sid s = Connector then (ns, im, k)
      else (ns @ [node_for sid k s], obj_set im (key_of (shapeId s)) (import_node_id k), Suc k))"
  by (simp add: build_node_def node_type_for_def node_for_def import_node_id_def Let_def)

lemma foldl_build_node:
  "\<forall>s \<in> set raw. node_type_for sid s \<noteq> Connector \<Longrightarrow>
   \<exists>im'. foldl (build_node sid) (ns, im, k) raw =
     (ns @ map (\<lambda>(i, s). node_for sid i s) (enumerate k raw), im', k + length raw)"
proof (induction raw arbitrary: ns im k)
  case Nil
  then show ?case by simp
next
  case (Cons s raw)
  from Cons.prems have ih: "\<forall>s \<in> set raw. node_type_for sid s \<noteq> Connector" by simp
  from Cons.prems have nc: "node_type_for sid s \<noteq> Connector" by simp
  from Cons.IH [OF ih, of "ns @ [node_for sid k s]" "obj_set im (key_of (shapeId s)) (import_node_id k)" "Suc k"]
  show ?case by (simp add: build_node_eq nc)
qed

lemma node_type_for_not_connector:
  "classifyShape (masterInfo s) (label s) \<noteq> Connector \<Longrightarrow> node_type_for sid s \<noteq> Connector"
  by (simp add: node_type_for_def)

section \<open>Step 3: the start shape\<close>

lemma sort_shapes_hd:
  assumes "sort_cmp cmp_shape xs = s # rest"
  shows "topmost_leftmost xs s"
proof -
  have "sorted_wrt (\<lambda>a b. cmp_shape a b \<le> 0) (s # rest)"
    using sorted_shapes [of xs] assms by simp
  then have le: "\<forall>t \<in> set rest. cmp_shape s t \<le> 0" by simp
  have mem: "set xs = insert s (set rest)"
    using set_sort_cmp [of cmp_shape xs] assms by simp
  show ?thesis
    unfolding topmost_leftmost_def mem using le by (auto simp: cmp_shape_le)
qed

lemma sort_nodes_hd:
  assumes "sort_cmp cmp_node xs = s # rest"
  shows "smallest_yx xs s"
proof -
  have "sorted_wrt (\<lambda>a b. cmp_node a b \<le> 0) (s # rest)"
    using sorted_nodes [of xs] assms by simp
  then have le: "\<forall>t \<in> set rest. cmp_node s t \<le> 0" by simp
  have mem: "set xs = insert s (set rest)"
    using set_sort_cmp [of cmp_node xs] assms by simp
  show ?thesis
    unfolding smallest_yx_def mem using le by (auto simp: cmp_node_le)
qed


lemma infer_start_candidates:
  assumes "find isTerminator (noIncoming es raw) = None" "noIncoming es raw \<noteq> []"
  shows "\<exists>s. infer_start es raw = (Some s, raw) \<and> topmost_leftmost (noIncoming es raw) s"
proof -
  from assms(2) obtain s rest where srt: "sort_cmp cmp_shape (noIncoming es raw) = s # rest"
    by (cases "sort_cmp cmp_shape (noIncoming es raw)") (auto simp: sort_cmp_Nil_iff)
  with assms(1) have "infer_start es raw = (Some s, raw)" by (simp add: infer_start_def)
  with sort_shapes_hd [OF srt] show ?thesis by blast
qed

lemma infer_start_all:
  assumes "noIncoming es raw = []" "raw \<noteq> []"
  shows "\<exists>s. infer_start es raw = (Some s, sort_cmp cmp_shape raw) \<and> topmost_leftmost raw s"
proof -
  from assms(2) obtain s rest where srt: "sort_cmp cmp_shape raw = s # rest"
    by (cases "sort_cmp cmp_shape raw") (auto simp: sort_cmp_Nil_iff)
  with assms(1) have "infer_start es raw = (Some s, sort_cmp cmp_shape raw)"
    by (simp add: infer_start_def)
  with sort_shapes_hd [OF srt] show ?thesis by blast
qed

lemma infer_start_empty: "infer_start es [] = (None, [])"
  by (simp add: infer_start_def noIncoming_def)




lemma rawShapes_not_connector:
  "s \<in> set (rawShapes_of page masters) \<Longrightarrow> node_type_for sid s \<noteq> Connector"
  unfolding rawShapes_of_def
  using collect_shapes_shapes_ok node_type_for_not_connector by blast

lemma infer_start_snd:
  "snd (infer_start es raw) = (if noIncoming es raw = [] then sort_cmp cmp_shape raw else raw)"
proof (cases "noIncoming es raw = []")
  case True
  then show ?thesis by (simp add: infer_start_def Let_def)
next
  case False
  then have "sort_cmp cmp_shape (noIncoming es raw) \<noteq> []" by (simp add: sort_cmp_Nil_iff)
  with False show ?thesis
    by (auto simp: infer_start_def split: option.splits list.splits)
qed

lemma infer_start_mset: "mset (snd (infer_start es raw)) = mset raw"
  by (simp add: infer_start_snd mset_sort_cmp)

lemma infer_start_set: "set (snd (infer_start es raw)) = set raw"
  by (metis infer_start_mset set_mset_mset)

lemma infer_start_fst_mem:
  "fst (infer_start es raw) = Some s \<Longrightarrow> s \<in> set raw"
proof -
  assume a: "fst (infer_start es raw) = Some s"
  have sub: "set (noIncoming es raw) \<subseteq> set raw" by (auto simp: noIncoming_def)
  show ?thesis
  proof (cases "find isTerminator (noIncoming es raw)")
    case (Some t)
    with a have "t = s" by (simp add: infer_start_def)
    with Some sub show ?thesis by (auto simp: find_Some_iff)
  next
    case None
    show ?thesis
    proof (cases "noIncoming es raw = []")
      case True
      with a None have "raw \<noteq> []" by (auto simp: infer_start_def Let_def)
      from infer_start_all [OF True this] a show ?thesis
        by (auto simp: topmost_leftmost_def)
    next
      case False
      from infer_start_candidates [OF None False] a sub show ?thesis
        by (auto simp: topmost_leftmost_def)
    qed
  qed
qed

lemma infer_start_fst_None: "fst (infer_start es raw) = None \<longleftrightarrow> raw = []"
proof
  assume a: "fst (infer_start es raw) = None"
  show "raw = []"
  proof (rule ccontr)
    assume ne: "raw \<noteq> []"
    show False
    proof (cases "find isTerminator (noIncoming es raw)")
      case (Some t)
      with a show False by (simp add: infer_start_def)
    next
      case None
      show False
      proof (cases "noIncoming es raw = []")
        case True
        from infer_start_all [OF True ne] a show False by auto
      next
        case False
        from infer_start_candidates [OF None False] a show False by auto
      qed
    qed
  qed
next
  assume "raw = []"
  then show "fst (infer_start es raw) = None" by (simp add: infer_start_empty)
qed

lemma build_nodes_fst:
  assumes "\<forall>s \<in> set raw. node_type_for sid s \<noteq> Connector"
  shows "fst (build_nodes sid raw) = nodes_for sid raw"
  using foldl_build_node [OF assms, of "[]" Map.empty 0]
  by (auto simp: build_nodes_def nodes_for_def)

lemma assembled_nodes_eq:
  "assembled_nodes page masters =
     nodes_for (startShapeId_of (fst (infer_start (rawEdges_of page masters) (rawShapes_of page masters))))
       (snd (infer_start (rawEdges_of page masters) (rawShapes_of page masters)))"
proof -
  let ?I = "infer_start (rawEdges_of page masters) (rawShapes_of page masters)"
  have "\<forall>s \<in> set (snd ?I). node_type_for (startShapeId_of (fst ?I)) s \<noteq> Connector"
    using rawShapes_not_connector by (simp add: infer_start_set)
  from build_nodes_fst [OF this] show ?thesis
    by (simp add: assembled_nodes_def Let_def split_beta)
qed

lemma parseVisioXml_nodes:
  "parseVisioXml page masters = Inr (ns, es) \<Longrightarrow> ns = fallback_start (assembled_nodes page masters)"
  by (auto simp: parseVisioXml_def assembled_nodes_def Let_def split_beta split: if_splits)

lemma parseVisioXml_returns:
  "(\<exists>ns es. parseVisioXml page masters = Inr (ns, es))
     \<longleftrightarrow> \<not> thrown (build_connectorMap (connects page))"
  by (auto simp: parseVisioXml_def Let_def split_beta)

lemma parseVisioXml_raises:
  "parseVisioXml page masters = Inl e \<longleftrightarrow> thrown (build_connectorMap (connects page))"
  by (cases e) (auto simp: parseVisioXml_def Let_def split_beta)

lemma map_comp_snd_enumerate: "map (f \<circ> snd) (enumerate n xs) = map f xs"
  by (metis map_map map_snd_enumerate)

lemma map_comp_fst_enumerate: "map (f \<circ> fst) (enumerate n xs) = map f [n..<n + length xs]"
  by (metis map_map map_fst_enumerate)

lemma nodes_for_tempId: "map tempId (nodes_for sid raw) = map import_node_id [0..<length raw]"
proof -
  have "map tempId (nodes_for sid raw) = map (import_node_id \<circ> fst) (enumerate 0 raw)"
    by (auto simp: nodes_for_def node_for_def)
  then show ?thesis by (simp only: map_comp_fst_enumerate) simp
qed

lemma nodes_for_visioId: "map visioId (nodes_for sid raw) = map shapeId raw"
proof -
  have "map visioId (nodes_for sid raw) = map (shapeId \<circ> snd) (enumerate 0 raw)"
    by (auto simp: nodes_for_def node_for_def)
  then show ?thesis by (simp only: map_comp_snd_enumerate)
qed


lemma nodes_for_is_start: "map is_start (nodes_for sid raw) = map (\<lambda>s. shapeId s = sid) raw"
proof -
  have "map is_start (nodes_for sid raw) = map ((\<lambda>s. shapeId s = sid) \<circ> snd) (enumerate 0 raw)"
    by (auto simp: nodes_for_def node_for_def)
  then show ?thesis by (simp only: map_comp_snd_enumerate)
qed

lemma nodes_for_distinct: "distinct (map tempId (nodes_for sid raw))"
  unfolding nodes_for_tempId
  by (simp add: distinct_map inj_on_def import_node_id_inj)

lemma nodes_for_length: "length (nodes_for sid raw) = length raw"
  by (simp add: nodes_for_def)

lemma nodes_for_start_question: "n \<in> set (nodes_for sid raw) \<Longrightarrow> is_start n \<Longrightarrow> type n = Question"
  by (auto simp: nodes_for_def node_for_def node_type_for_def)

section \<open>Step 4 and the fallback start node\<close>

lemma mark_fallback_length: "length (mark_fallback t ns) = length ns"
  by (induction ns) auto

lemma mark_fallback_tempId: "map tempId (mark_fallback t ns) = map tempId ns"
  by (induction ns) auto

lemma mark_fallback_visioId: "map visioId (mark_fallback t ns) = map visioId ns"
  by (induction ns) auto

lemma mark_fallback_title: "map title (mark_fallback t ns) = map title ns"
  by (induction ns) auto

lemma mark_fallback_pos:
  "map pos_x (mark_fallback t ns) = map pos_x ns \<and> map pos_y (mark_fallback t ns) = map pos_y ns"
  by (induction ns) auto

lemma mark_fallback_count:
  "\<not> list_ex is_start ns \<Longrightarrow> t \<in> tempId ` set ns \<Longrightarrow>
     length (filter is_start (mark_fallback t ns)) = 1"
proof (induction ns)
  case Nil
  then show ?case by simp
next
  case (Cons n ns)
  from Cons.prems(1) have none: "filter is_start ns = []"
    by (auto simp: list_ex_iff filter_empty_conv)
  show ?case
  proof (cases "tempId n = t")
    case True
    with none show ?thesis by simp
  next
    case False
    with Cons show ?thesis by (auto simp: list_ex_iff)
  qed
qed

lemma mark_fallback_question:
  "\<forall>n \<in> set ns. is_start n \<longrightarrow> type n = Question \<Longrightarrow>
   \<forall>n \<in> set (mark_fallback t ns). is_start n \<longrightarrow> type n = Question"
  by (induction ns) auto

lemma mark_fallback_map:
  "distinct (map tempId ns) \<Longrightarrow> n \<in> set ns \<Longrightarrow>
     mark_fallback (tempId n) ns
       = map (\<lambda>m. if m = n then m \<lparr> type := Question, is_start := True \<rparr> else m) ns"
proof (induction ns)
  case Nil
  then show ?case by simp
next
  case (Cons a ns)
  show ?case
  proof (cases "a = n")
    case True
    from Cons.prems(1) True have "\<forall>m \<in> set ns. m \<noteq> n" by auto
    then have "map (\<lambda>m. if m = n then m \<lparr> type := Question, is_start := True \<rparr> else m) ns = ns"
      by (induction ns) auto
    with True show ?thesis by simp
  next
    case False
    with Cons.prems have mem: "n \<in> set ns" by simp
    with Cons.prems(1) have "tempId a \<noteq> tempId n" by auto
    with False Cons.IH mem Cons.prems(1) show ?thesis by simp
  qed
qed

lemma fallback_fires_hd:
  assumes "fallback_fires ns"
  shows "\<exists>s0. smallest_yx ns s0 \<and> fallback_start ns = mark_fallback (tempId s0) ns"
proof -
  from assms have "ns \<noteq> []" by (simp add: fallback_fires_def)
  then obtain s0 rest where srt: "sort_cmp cmp_node ns = s0 # rest"
    by (cases "sort_cmp cmp_node ns") (auto simp: sort_cmp_Nil_iff)
  with assms have "fallback_start ns = mark_fallback (tempId s0) ns"
    by (simp add: fallback_start_def)
  with sort_nodes_hd [OF srt] show ?thesis by blast
qed

lemma fallback_start_idle: "\<not> fallback_fires ns \<Longrightarrow> fallback_start ns = ns"
  by (simp add: fallback_start_def)

lemma fallback_start_length: "length (fallback_start ns) = length ns"
proof (cases "fallback_fires ns")
  case True
  from fallback_fires_hd [OF True] show ?thesis by (auto simp: mark_fallback_length)
next
  case False
  then show ?thesis by (simp add: fallback_start_idle)
qed

lemma fallback_start_fields:
  "map tempId (fallback_start ns) = map tempId ns
   \<and> map visioId (fallback_start ns) = map visioId ns
   \<and> map title (fallback_start ns) = map title ns
   \<and> map pos_x (fallback_start ns) = map pos_x ns
   \<and> map pos_y (fallback_start ns) = map pos_y ns"
proof (cases "fallback_fires ns")
  case True
  from fallback_fires_hd [OF True] show ?thesis
    by (auto simp: mark_fallback_tempId mark_fallback_visioId mark_fallback_title mark_fallback_pos)
next
  case False
  then show ?thesis by (simp add: fallback_start_idle)
qed

lemma fallback_start_count:
  "ns \<noteq> [] \<Longrightarrow>
     length (filter is_start (fallback_start ns)) = max 1 (length (filter is_start ns))"
proof (cases "fallback_fires ns")
  case True
  then have none: "\<not> list_ex is_start ns" by (simp add: fallback_fires_def)
  then have z: "filter is_start ns = []" by (auto simp: list_ex_iff filter_empty_conv)
  from fallback_fires_hd [OF True] obtain s0
    where s0: "smallest_yx ns s0" "fallback_start ns = mark_fallback (tempId s0) ns" by blast
  then have "tempId s0 \<in> tempId ` set ns" by (auto simp: smallest_yx_def)
  from mark_fallback_count [OF none this] s0 z show ?thesis by simp
next
  case False
  assume ne: "ns \<noteq> []"
  with False have "list_ex is_start ns" by (simp add: fallback_fires_def)
  then have "filter is_start ns \<noteq> []" by (auto simp: list_ex_iff filter_empty_conv)
  then have "1 \<le> length (filter is_start ns)" by (cases "filter is_start ns") auto
  with False show ?thesis by (simp add: fallback_start_idle)
qed

lemma fallback_start_question:
  assumes "\<forall>n \<in> set ns. is_start n \<longrightarrow> type n = Question"
  shows "\<forall>n \<in> set (fallback_start ns). is_start n \<longrightarrow> type n = Question"
proof (cases "fallback_fires ns")
  case True
  from fallback_fires_hd [OF True] mark_fallback_question [OF assms] show ?thesis by auto
next
  case False
  with assms show ?thesis by (simp add: fallback_start_idle)
qed

lemma count_by_mset:
  "mset xs = mset ys \<Longrightarrow> length (filter P xs) = length (filter P ys)"
  by (metis mset_filter size_mset)

lemma distinct_map_filter_le1:
  "distinct (map f xs) \<Longrightarrow> length (filter (\<lambda>x. f x = v) xs) \<le> 1"
proof (induction xs)
  case Nil
  then show ?case by simp
next
  case (Cons a xs)
  show ?case
  proof (cases "f a = v")
    case True
    with Cons.prems have "\<forall>x \<in> set xs. f x \<noteq> v" by (auto simp: image_iff)
    then have "filter (\<lambda>x. f x = v) xs = []" by (auto simp: filter_empty_conv)
    with True show ?thesis by simp
  next
    case False
    with Cons show ?thesis by simp
  qed
qed

lemma nodes_for_count:
  "length (filter is_start (nodes_for sid raw)) = length (filter (\<lambda>s. shapeId s = sid) raw)"
proof -
  have "length (filter is_start (nodes_for sid raw))
        = length (filter id (map is_start (nodes_for sid raw)))"
    by (simp add: filter_map comp_def)
  also have "\<dots> = length (filter id (map (\<lambda>s. shapeId s = sid) raw))"
    by (simp only: nodes_for_is_start)
  also have "\<dots> = length (filter (\<lambda>s. shapeId s = sid) raw)"
    by (simp add: filter_map comp_def)
  finally show ?thesis .
qed

lemma visio_start_count:
  assumes "parseVisioXml page masters = Inr (ns, es)" and "ns \<noteq> []"
  shows "length (filter is_start ns)
         = max 1 (length (filter (\<lambda>s. shapeId s
               = startShapeId_of (fst (infer_start (rawEdges_of page masters) (rawShapes_of page masters))))
                (rawShapes_of page masters)))"
proof -
  let ?I = "infer_start (rawEdges_of page masters) (rawShapes_of page masters)"
  let ?sid = "startShapeId_of (fst ?I)"
  have A: "assembled_nodes page masters = nodes_for ?sid (snd ?I)" by (rule assembled_nodes_eq)
  note nodes = parseVisioXml_nodes [OF assms(1)]
  from assms(2) have ne: "assembled_nodes page masters \<noteq> []"
    using fallback_start_length [of "assembled_nodes page masters"]
    by (auto simp: nodes)
  have "length (filter is_start (assembled_nodes page masters))
        = length (filter (\<lambda>s. shapeId s = ?sid) (snd ?I))"
    unfolding A by (rule nodes_for_count)
  also have "\<dots> = length (filter (\<lambda>s. shapeId s = ?sid) (rawShapes_of page masters))"
    by (rule count_by_mset) (rule infer_start_mset)
  finally show ?thesis
    using fallback_start_count [OF ne] by (simp add: nodes)
qed

section \<open>The adapter's nodes\<close>

lemma normalize_is_start: "is_start (normalize_node p) = gen_is_start (snd p)"
  by (cases p) (simp add: normalize_node_def)

lemma normalized_count:
  "length (filter is_start (map normalize_node (enumerate 0 ns))) = length (filter gen_is_start ns)"
proof -
  have "filter is_start (map normalize_node (enumerate 0 ns))
        = map normalize_node (filter (gen_is_start \<circ> snd) (enumerate 0 ns))"
    by (simp add: filter_map comp_def normalize_is_start)
  then have "length (filter is_start (map normalize_node (enumerate 0 ns)))
        = length (filter (gen_is_start \<circ> snd) (enumerate 0 ns))" by simp
  also have "\<dots> = length (filter gen_is_start (map snd (enumerate 0 ns)))"
    by (simp only: filter_map length_map)
  finally show ?thesis by (simp only: map_snd_enumerate)
qed

lemma force_first_start_count:
  "ns \<noteq> [] \<Longrightarrow>
     length (filter is_start (force_first_start ns)) = max 1 (length (filter is_start ns))"
proof (cases ns)
  case Nil
  assume "ns \<noteq> []"
  with Nil show ?thesis by simp
next
  case (Cons n rest)
  show ?thesis
  proof (cases "list_ex is_start ns")
    case True
    then have "filter is_start ns \<noteq> []" by (auto simp: list_ex_iff filter_empty_conv)
    then have "1 \<le> length (filter is_start ns)" by (cases "filter is_start ns") auto
    with True Cons show ?thesis by (simp add: force_first_start_def)
  next
    case False
    then have z: "filter is_start ns = []" by (auto simp: list_ex_iff filter_empty_conv)
    with Cons have "filter is_start rest = []" by (auto split: if_splits)
    with False Cons z show ?thesis by (simp add: force_first_start_def)
  qed
qed

lemma force_first_start_length: "length (force_first_start ns) = length ns"
  by (cases ns) (auto simp: force_first_start_def)

lemma generated_nodes_length: "length (generated_nodes data) = length (gen_nodes data)"
  by (simp add: generated_nodes_def force_first_start_length)

lemma generated_nodes_Nil: "generated_nodes data = [] \<longleftrightarrow> gen_nodes data = []"
  using generated_nodes_length [of data] by (metis length_0_conv)

lemma generated_start_count:
  assumes "generated_nodes data \<noteq> []"
  shows "length (filter is_start (generated_nodes data))
         = max 1 (length (filter gen_is_start (gen_nodes data)))"
proof -
  from assms have "gen_nodes data \<noteq> []" by (simp add: generated_nodes_Nil)
  then have "length (map normalize_node (enumerate 0 (gen_nodes data))) \<noteq> 0" by simp
  then have "map normalize_node (enumerate 0 (gen_nodes data)) \<noteq> []" by (simp only: length_0_conv) simp
  from force_first_start_count [OF this] show ?thesis
    unfolding generated_nodes_def normalized_count .
qed

section \<open>Start nodes are questions\<close>

lemma assembled_start_question:
  "n \<in> set (assembled_nodes page masters) \<Longrightarrow> is_start n \<Longrightarrow> type n = Question"
  unfolding assembled_nodes_eq by (rule nodes_for_start_question)

lemma startShapeId_of_chosen:
  "shapeId s \<noteq> Some [] \<Longrightarrow> startShapeId_of (Some s) = shapeId s"
  by (cases "shapeId s") (auto simp: startShapeId_of_def)

lemma nodes_for_mem:
  assumes "s \<in> set raw"
  shows "\<exists>i. node_for sid i s \<in> set (nodes_for sid raw)"
proof -
  from assms obtain i where i: "i < length raw" "raw ! i = s" by (auto simp: in_set_conv_nth)
  then have "(i, s) \<in> set (enumerate 0 raw)" by (auto simp: in_set_enumerate_eq)
  then have "node_for sid i s \<in> set (nodes_for sid raw)"
    unfolding nodes_for_def by force
  then show ?thesis ..
qed

section \<open>The handler's warnings\<close>

lemma handleFile_warnings:
  assumes "handleFile (Some page) masters = Inr (ns, es, ws)"
  shows "parseVisioXml page masters = Inr (ns, es) \<and> ns \<noteq> []
         \<and> (\<forall>k. DroppedEdges k \<notin> set ws)
         \<and> (NoStartDetected \<in> set ws \<longleftrightarrow> \<not> list_ex is_start ns)"
proof (cases "parseVisioXml page masters")
  case (Inl e)
  with assms show ?thesis by (simp add: handleFile_def Let_def)
next
  case (Inr r)
  obtain ns' es' where r: "r = (ns', es')" by (cases r)
  from assms Inr r have ne: "ns' \<noteq> []"
    by (auto simp: handleFile_def Let_def split: if_splits)
  with assms Inr r show ?thesis
    by (auto simp: handleFile_def Let_def split: if_splits)
qed


section \<open>The wiring table\<close>

lemma build_connectorMap_snoc:
  "build_connectorMap (cs @ [c]) = add_connect (build_connectorMap cs) c"
  by (simp add: build_connectorMap_def)

lemma not_inherited_key:
  "k \<notin> set Object_prototype_keys \<Longrightarrow> k \<notin> set Object_function_keys \<and> k \<noteq> ''__proto__''"
  by (simp add: Object_prototype_keys_def Object_function_keys_def)

lemma lookup_plain:
  assumes "prototype h = no_ends" and "k \<notin> set Object_prototype_keys"
  shows "lookup h k = (case entries h k of Some w \<Rightarrow> Entry w | None \<Rightarrow> Undefined)"
  using assms not_inherited_key [of k]
  by (auto simp: lookup_def no_ends_def split: option.splits)

lemma add_connect_plain:
  assumes "prototype h = no_ends" and "\<not> thrown h"
    and "key_of (FromSheet c) \<notin> set Object_prototype_keys"
  shows "add_connect h c =
     h \<lparr> entries := (entries h)(key_of (FromSheet c) \<mapsto>
           \<lparr> from_end = (if FromPart c = Some ''9'' then Some (ToSheet c)
                          else case entries h (key_of (FromSheet c)) of
                                 None \<Rightarrow> None | Some w \<Rightarrow> from_end w),
              to_end = (if FromPart c = Some ''12'' then Some (ToSheet c)
                        else case entries h (key_of (FromSheet c)) of
                               None \<Rightarrow> None | Some w \<Rightarrow> to_end w) \<rparr>) \<rparr>"
proof (cases "entries h (key_of (FromSheet c))")
  case None
  with assms lookup_plain [OF assms(1,3)] show ?thesis
    by (simp add: add_connect_def Let_def write_end_def lookup_def set_end_def no_ends_def)
next
  case (Some w)
  with assms lookup_plain [OF assms(1,3)] show ?thesis
    by (cases w) (simp add: add_connect_def Let_def write_end_def lookup_def set_end_def fun_upd_idem)
qed

lemma last_end_snoc:
  "last_end part k (cs @ [c]) =
     (if key_of (FromSheet c) = k \<and> FromPart c = Some part then Some (ToSheet c)
      else last_end part k cs)"
  by (simp add: last_end_def Let_def)

lemma last_end_none: "k \<notin> key_of ` FromSheet ` set cs \<Longrightarrow> last_end part k cs = None"
  by (auto simp: last_end_def Let_def filter_empty_conv)

lemma build_connectorMap_plain:
  assumes "\<forall>c \<in> set cs. key_of (FromSheet c) \<notin> set Object_prototype_keys"
  shows "build_connectorMap cs =
     \<lparr> entries = (\<lambda>k. if k \<in> key_of ` FromSheet ` set cs
                       then Some \<lparr> from_end = last_end ''9'' k cs, to_end = last_end ''12'' k cs \<rparr>
                       else None),
       function_ends = Map.empty, prototype = no_ends, thrown = False \<rparr>"
  using assms
proof (induction cs rule: rev_induct)
  case Nil
  then show ?case by (simp add: build_connectorMap_def pristine_def)
next
  case (snoc c cs)
  let ?k = "key_of (FromSheet c)"
  let ?h = "build_connectorMap cs"
  from snoc have ih: "?h =
     \<lparr> entries = (\<lambda>k. if k \<in> key_of ` FromSheet ` set cs
                       then Some \<lparr> from_end = last_end ''9'' k cs, to_end = last_end ''12'' k cs \<rparr>
                       else None),
       function_ends = Map.empty, prototype = no_ends, thrown = False \<rparr>"
    and nk: "?k \<notin> set Object_prototype_keys" by auto
  from ih have p: "prototype ?h = no_ends" "\<not> thrown ?h" "function_ends ?h = Map.empty"
    and e: "\<And>k. entries ?h k = (if k \<in> key_of ` FromSheet ` set cs
                       then Some \<lparr> from_end = last_end ''9'' k cs, to_end = last_end ''12'' k cs \<rparr>
                       else None)"
    by simp_all
  note step = add_connect_plain [OF p(1,2) nk]
  have ent: "entries (add_connect ?h c) k =
      (if k \<in> key_of ` FromSheet ` set (cs @ [c])
       then Some \<lparr> from_end = last_end ''9'' k (cs @ [c]), to_end = last_end ''12'' k (cs @ [c]) \<rparr>
       else None)" for k
  proof (cases "k = ?k")
    case False
    then show ?thesis unfolding step by (auto simp: e last_end_snoc)
  next
    case True
    show ?thesis
    proof (cases "?k \<in> key_of ` FromSheet ` set cs")
      case seen: True
      with True show ?thesis unfolding step by (simp add: e last_end_snoc)
    next
      case fresh: False
      with True show ?thesis unfolding step by (simp add: e last_end_snoc last_end_none)
    qed
  qed
  have rest: "function_ends (add_connect ?h c) = Map.empty"
    "prototype (add_connect ?h c) = no_ends" "thrown (add_connect ?h c) = False"
    unfolding step by (simp_all add: p)
  show ?case
    unfolding build_connectorMap_snoc
    by (rule wiring.equality) (simp_all add: rest ent fun_eq_iff del: set_append)
qed

section \<open>The adapter's coordinates\<close>

lemma force_first_start_pos:
  "map pos_x (force_first_start ns) = map pos_x ns \<and> map pos_y (force_first_start ns) = map pos_y ns"
  by (cases ns) (auto simp: force_first_start_def)

lemma force_first_start_tempId: "map tempId (force_first_start ns) = map tempId ns"
  by (cases ns) (auto simp: force_first_start_def)

lemma normalized_nth:
  "i < length ns \<Longrightarrow> map normalize_node (enumerate 0 ns) ! i = normalize_node (i, ns ! i)"
  by (simp add: nth_enumerate_eq)

lemma generated_nodes_pos:
  assumes "i < length (gen_nodes data)"
  shows "pos_x (generated_nodes data ! i) = pos_x (normalize_node (i, gen_nodes data ! i))
       \<and> pos_y (generated_nodes data ! i) = pos_y (normalize_node (i, gen_nodes data ! i))"
proof -
  let ?ns = "map normalize_node (enumerate 0 (gen_nodes data))"
  from assms have len: "i < length ?ns" by simp
  then have len': "i < length (force_first_start ?ns)" by (simp add: force_first_start_length)
  have "pos_x (force_first_start ?ns ! i) = map pos_x (force_first_start ?ns) ! i"
    using len' by (simp only: nth_map)
  also have "\<dots> = map pos_x ?ns ! i" by (simp only: force_first_start_pos)
  also have "\<dots> = pos_x (?ns ! i)" using len by (simp only: nth_map)
  finally have x: "pos_x (force_first_start ?ns ! i) = pos_x (?ns ! i)" .
  have "pos_y (force_first_start ?ns ! i) = map pos_y (force_first_start ?ns) ! i"
    using len' by (simp only: nth_map)
  also have "\<dots> = map pos_y ?ns ! i" by (simp only: force_first_start_pos)
  also have "\<dots> = pos_y (?ns ! i)" using len by (simp only: nth_map)
  finally have y: "pos_y (force_first_start ?ns ! i) = pos_y (?ns ! i)" .
  from x y normalized_nth [OF assms] show ?thesis by (simp add: generated_nodes_def)
qed

section \<open>The adapter's edges\<close>

lemma obj_set_values: "obj_set m k v key = Some w \<Longrightarrow> m key = Some w \<or> w = v"
  by (auto simp: obj_set_def split: if_splits)

lemma add_ai_id_values:
  "add_ai_id m (i, n) key = Some w \<Longrightarrow> m key = Some w \<or> w = import_node_id i"
  by (auto simp: add_ai_id_def Let_def split: option.splits if_splits dest!: obj_set_values)

lemma foldl_add_ai_id_values:
  "foldl add_ai_id m ps key = Some w \<Longrightarrow>
     m key = Some w \<or> (\<exists>p \<in> set ps. w = import_node_id (fst p))"
proof (induction ps arbitrary: m)
  case Nil
  then show ?case by simp
next
  case (Cons p ps)
  obtain i n where p: "p = (i, n)" by (cases p)
  from Cons.prems have "foldl add_ai_id (add_ai_id m p) ps key = Some w" by simp
  from Cons.IH [OF this] show ?case
  proof
    assume "add_ai_id m p key = Some w"
    with add_ai_id_values [of m i n key w] p show ?thesis by auto
  next
    assume "\<exists>q \<in> set ps. w = import_node_id (fst q)"
    then show ?thesis by auto
  qed
qed

lemma aiIdToTempId_values:
  assumes "aiIdToTempId ns key = Some w"
  shows "\<exists>i < length ns. w = import_node_id i"
proof -
  from assms have "foldl add_ai_id Map.empty (enumerate 0 ns) key = Some w"
    by (simp only: aiIdToTempId_def)
  from foldl_add_ai_id_values [OF this]
  have "\<exists>p \<in> set (enumerate 0 ns). w = import_node_id (fst p)" by simp
  then obtain i n where mem: "(i, n) \<in> set (enumerate 0 ns)" and w: "w = import_node_id i"
    by force
  from mem have "i < length ns" by (simp add: in_set_enumerate_eq)
  with w show ?thesis by blast
qed

lemma generated_nodes_tempId:
  "map tempId (generated_nodes data) = map import_node_id [0..<length (gen_nodes data)]"
proof -
  have "map tempId (map normalize_node (enumerate 0 (gen_nodes data)))
        = map (import_node_id \<circ> fst) (enumerate 0 (gen_nodes data))"
    by (auto simp: normalize_node_def)
  then show ?thesis
    by (simp only: generated_nodes_def force_first_start_tempId map_comp_fst_enumerate) simp
qed

lemma generated_tempId_mem:
  "i < length (gen_nodes data) \<Longrightarrow> import_node_id i \<in> tempId ` set (generated_nodes data)"
proof -
  assume "i < length (gen_nodes data)"
  then have "import_node_id i \<in> set (map import_node_id [0..<length (gen_nodes data)])" by simp
  then have "import_node_id i \<in> set (map tempId (generated_nodes data))"
    by (simp only: generated_nodes_tempId)
  then show ?thesis by simp
qed

lemma obj_get_endpoint:
  assumes "\<And>k v. m k = Some v \<Longrightarrow> v \<in> ids" "ref_truthy (obj_get m key)"
  shows "endpoint_ok ids (obj_get m key)"
  using assms by (auto simp: obj_get_def endpoint_ok_def split: option.splits if_splits)

lemma generated_edges_endpoints:
  assumes "e \<in> set (generated_edges data)"
  shows "endpoint_ok (tempId ` set (generated_nodes data)) (sourceId e)
       \<and> endpoint_ok (tempId ` set (generated_nodes data)) (targetId e)"
proof -
  let ?m = "aiIdToTempId (gen_nodes data)"
  have vals: "\<And>k v. ?m k = Some v \<Longrightarrow> v \<in> tempId ` set (generated_nodes data)"
    using aiIdToTempId_values generated_tempId_mem by blast
  from assms obtain p where e: "e = map_edge ?m p" and v: "valid_edge e"
    by (auto simp: generated_edges_def)
  obtain i g where p: "p = (i, g)" by (cases p)
  from e p have s: "sourceId e = obj_get ?m (gen_source g)" and t: "targetId e = obj_get ?m (gen_target g)"
    by (simp_all add: map_edge_def)
  from v have "ref_truthy (sourceId e)" "ref_truthy (targetId e)" by (simp_all add: valid_edge_def)
  with s t obj_get_endpoint [of ?m "tempId ` set (generated_nodes data)", OF vals]
  show ?thesis by simp
qed

section \<open>Connectors without both ends\<close>





lemma collect_shape_one_sided:
  assumes "is_connector_shape mm cm sh" and "resolved_wire cm (shape_ID sh) = None"
  shows "collect_shape mm cm st sh = st"
proof -
  obtain es rs where st: "st = (es, rs)" by (cases st)
  from assms show ?thesis unfolding st collect_shape_eq by simp
qed

lemma collect_shapes_one_sided:
  assumes "is_connector_shape mm cm sh" and "resolved_wire cm (shape_ID sh) = None"
  shows "collect_shapes mm cm (pre @ sh # post) = collect_shapes mm cm (pre @ post)"
  using collect_shape_one_sided [of mm cm sh, OF assms] by (simp add: collect_shapes_def)

lemma parseVisioXml_cong:
  assumes "connects p = connects q"
    and "rawEdges_of p masters = rawEdges_of q masters"
    and "rawShapes_of p masters = rawShapes_of q masters"
  shows "parseVisioXml p masters = parseVisioXml q masters"
  unfolding parseVisioXml_def assms by (rule refl)

lemma handleFile_cong:
  assumes "parseVisioXml p masters = parseVisioXml q masters"
  shows "handleFile (Some p) masters = handleFile (Some q) masters"
  using assms by (simp add: handleFile_def)

text \<open>
  In a table built from records none of which names an inherited member, a connector is
  resolved exactly when its entry holds two non-empty ends of its own.
\<close>

lemma resolved_wire_plain:
  assumes "prototype cm = no_ends" and "entries cm (key_of sid) = Some w"
  shows "resolved_wire cm sid =
     (case (from_end w, to_end w) of
        (Some (Some f), Some (Some t)) \<Rightarrow> if f \<noteq> [] \<and> t \<noteq> [] then Some (f, t) else None
      | _ \<Rightarrow> None)"
proof -
  from assms(2) have l: "lookup cm (key_of sid) = Entry w" by (simp add: lookup_def)
  have r: "read_end e cm (Entry w) = (case get_end e w of None \<Rightarrow> None | Some v \<Rightarrow> v)" for e
    using assms(1)
    by (cases e) (simp_all add: read_end_def own_or_inherited_def inherited_end_def get_end_def
        no_ends_def split: option.split)
  show ?thesis
    unfolding resolved_wire_def l r
    by (cases "from_end w"; cases "to_end w") (auto simp: get_end_def split: option.splits)
qed

section \<open>Edge endpoints\<close>

lemma build_node_idMap:
  assumes "\<forall>key v. im key = Some v \<longrightarrow> v \<in> tempId ` set ns"
    and "build_node sid (ns, im, k) s = (ns', im', k')"
    and "im' key = Some v"
  shows "v \<in> tempId ` set ns'"
proof (cases "node_type_for sid s = Connector")
  case True
  with assms show ?thesis by (simp add: build_node_eq)
next
  case False
  with assms(2) have ns': "ns' = ns @ [node_for sid k s]"
    and im': "im' = obj_set im (key_of (shapeId s)) (import_node_id k)"
    by (simp_all add: build_node_eq)
  from assms(3) im' obj_set_values [of im "key_of (shapeId s)" "import_node_id k" key v]
  have "im key = Some v \<or> v = import_node_id k" by simp
  then show ?thesis
  proof
    assume "im key = Some v"
    with assms(1) ns' show ?thesis by auto
  next
    assume "v = import_node_id k"
    with ns' show ?thesis by (simp add: node_for_def)
  qed
qed

lemma foldl_build_node_idMap:
  assumes "\<forall>key v. im key = Some v \<longrightarrow> v \<in> tempId ` set ns"
    and "foldl (build_node sid) (ns, im, k) raw = (ns', im', k')"
    and "im' key = Some v"
  shows "v \<in> tempId ` set ns'"
  using assms
proof (induction raw arbitrary: ns im k)
  case Nil
  then show ?case by simp
next
  case (Cons s raw)
  obtain ns1 im1 k1 where st: "build_node sid (ns, im, k) s = (ns1, im1, k1)"
    by (cases "build_node sid (ns, im, k) s")
  have inv: "\<forall>key v. im1 key = Some v \<longrightarrow> v \<in> tempId ` set ns1"
    using build_node_idMap [OF Cons.prems(1) st] by blast
  from Cons.prems(2) st have "foldl (build_node sid) (ns1, im1, k1) raw = (ns', im', k')" by simp
  from Cons.IH [OF inv this Cons.prems(3)] show ?case .
qed

lemma build_nodes_idMap:
  assumes "build_nodes sid raw = (ns, im, k)" "im key = Some v"
  shows "v \<in> tempId ` set ns"
  using foldl_build_node_idMap [of Map.empty "[]" sid 0 raw ns im k key v] assms
  by (simp add: build_nodes_def)

lemma or_null_truthy: "ref_truthy (or_null r) \<Longrightarrow> or_null r = r \<and> ref_truthy r"
  by (auto simp: or_null_def split: if_splits)

lemma fallback_start_tempIds: "tempId ` set (fallback_start ns) = tempId ` set ns"
proof -
  have "set (map tempId (fallback_start ns)) = set (map tempId ns)"
    using fallback_start_fields [of ns] by simp
  then show ?thesis by simp
qed

lemma idMap_get_endpoint:
  assumes "\<And>key v. m key = Some v \<Longrightarrow> v \<in> ids" and "ref_truthy (idMap_get proto m k)"
  shows "endpoint_ok ids (idMap_get proto m k) \<or> inherited_string proto (idMap_get proto m k)"
proof (cases "m k")
  case (Some v)
  with assms(1) show ?thesis by (auto simp: idMap_get_def endpoint_ok_def)
next
  case None
  show ?thesis
  proof (cases "k \<in> set Object_prototype_keys")
    case True
    with None show ?thesis by (simp add: idMap_get_def endpoint_ok_def)
  next
    case False
    with None assms(2) show ?thesis
      by (auto simp: idMap_get_def inherited_string_def split: if_splits option.splits)
  qed
qed

lemma parseVisioXml_edges_endpoints:
  assumes "parseVisioXml page masters = Inr (nodes, edges)" and "e \<in> set edges"
  shows "(endpoint_ok (tempId ` set nodes) (sourceId e)
          \<or> inherited_string (prototype (build_connectorMap (connects page))) (sourceId e))
       \<and> (endpoint_ok (tempId ` set nodes) (targetId e)
          \<or> inherited_string (prototype (build_connectorMap (connects page))) (targetId e))"
proof -
  let ?I = "infer_start (rawEdges_of page masters) (rawShapes_of page masters)"
  let ?P = "prototype (build_connectorMap (connects page))"
  obtain ns im k where b: "build_nodes (startShapeId_of (fst ?I)) (snd ?I) = (ns, im, k)"
    by (cases "build_nodes (startShapeId_of (fst ?I)) (snd ?I)")
  from assms(1) have nt: "\<not> thrown (build_connectorMap (connects page))"
    using parseVisioXml_returns [of page masters] by blast
  have nodes: "nodes = fallback_start ns"
    using b assms(1) nt by (simp add: parseVisioXml_def Let_def split_beta)
  have edges: "edges = filter valid_edge (map (resolve_edge ?P im) (rawEdges_of page masters))"
    using b assms(1) nt by (simp add: parseVisioXml_def Let_def split_beta)
  have vals: "\<And>key v. im key = Some v \<Longrightarrow> v \<in> tempId ` set (fallback_start ns)"
    using build_nodes_idMap [OF b] by (simp add: fallback_start_tempIds)
  from assms(2) edges obtain r where e: "e = resolve_edge ?P im r" and v: "valid_edge e" by auto
  from v have ts: "ref_truthy (sourceId e)" and tt: "ref_truthy (targetId e)"
    by (simp_all add: valid_edge_def)
  from e ts or_null_truthy [of "idMap_get ?P im (visioSrcId r)"]
  have s: "sourceId e = idMap_get ?P im (visioSrcId r)" "ref_truthy (idMap_get ?P im (visioSrcId r))"
    by (simp_all add: resolve_edge_def)
  from e tt or_null_truthy [of "idMap_get ?P im (visioTgtId r)"]
  have t: "targetId e = idMap_get ?P im (visioTgtId r)" "ref_truthy (idMap_get ?P im (visioTgtId r))"
    by (simp_all add: resolve_edge_def)
  from idMap_get_endpoint [of im "tempId ` set (fallback_start ns)", OF vals s(2)]
    idMap_get_endpoint [of im "tempId ` set (fallback_start ns)", OF vals t(2)] s(1) t(1)
  show ?thesis unfolding nodes by simp
qed

text \<open>
  Every end of every emitted edge, on either path, is the \<open>tempId\<close> of an emitted node
  or a member the id table inherits from \<^verbatim>\<open>Object.prototype\<close>, be it a built-in one or
  a string the wiring loop put there.
\<close>

lemma edge_endpoints:
  "(\<forall>nodes edges. parseVisioXml page masters = Inr (nodes, edges) \<longrightarrow>
      (\<forall>e \<in> set edges.
         (endpoint_ok (tempId ` set nodes) (sourceId e)
          \<or> inherited_string (prototype (build_connectorMap (connects page))) (sourceId e))
       \<and> (endpoint_ok (tempId ` set nodes) (targetId e)
          \<or> inherited_string (prototype (build_connectorMap (connects page))) (targetId e))))
   \<and> (\<forall>e \<in> set (generated_edges data).
      endpoint_ok (tempId ` set (generated_nodes data)) (sourceId e)
      \<and> endpoint_ok (tempId ` set (generated_nodes data)) (targetId e))"
  using parseVisioXml_edges_endpoints generated_edges_endpoints by blast

section \<open>Retained shapes and resolved wires\<close>

lemma collect_shapes_snd:
  "snd (collect_shapes mm cm shs)
     = map (raw_shape_of mm)
         (filter (\<lambda>sh. \<not> is_connector_shape mm cm sh \<and> shape_label sh \<noteq> []) shs)"
proof (induction shs rule: rev_induct)
  case Nil
  then show ?case by (simp add: collect_shapes_def)
next
  case (snoc sh shs)
  obtain es rs where st: "collect_shapes mm cm shs = (es, rs)" by (cases "collect_shapes mm cm shs")
  with snoc show ?case
    unfolding collect_shapes_snoc st collect_shape_eq
    by (auto split: option.splits)
qed



lemma rawShapes_retained:
  "rawShapes_of page masters
     = map (raw_shape_of (parseMasters masters))
         (filter (\<lambda>sh. \<not> is_connector_shape (parseMasters masters)
                          (build_connectorMap (connects page)) sh
                      \<and> shape_label sh \<noteq> []) (shapes page))"
  by (simp add: rawShapes_of_def collect_shapes_snd)

lemma fallback_unreachable:
  assumes "\<forall>s \<in> set (rawShapes_of page masters). shapeId s \<noteq> Some []"
  shows "\<not> fallback_fires (assembled_nodes page masters)"
proof (cases "rawShapes_of page masters = []")
  case True
  then have "snd (infer_start (rawEdges_of page masters) (rawShapes_of page masters)) = []"
    by (simp add: infer_start_empty)
  then have "assembled_nodes page masters = []"
    by (simp add: assembled_nodes_eq nodes_for_def)
  then show ?thesis by (simp add: fallback_fires_def)
next
  case False
  let ?I = "infer_start (rawEdges_of page masters) (rawShapes_of page masters)"
  from False obtain s where st: "fst ?I = Some s"
    using infer_start_fst_None [of "rawEdges_of page masters" "rawShapes_of page masters"]
    by (cases "fst ?I") auto
  from infer_start_fst_mem [OF st] have mem: "s \<in> set (rawShapes_of page masters)" .
  with assms have id: "shapeId s \<noteq> Some []" by blast
  from mem have "s \<in> set (snd ?I)" by (simp add: infer_start_set)
  from nodes_for_mem [OF this] obtain i
    where n: "node_for (startShapeId_of (fst ?I)) i s \<in> set (assembled_nodes page masters)"
    unfolding assembled_nodes_eq by blast
  from st id have "startShapeId_of (fst ?I) = shapeId s" by (simp add: startShapeId_of_chosen)
  then have "is_start (node_for (startShapeId_of (fst ?I)) i s)" by (simp add: node_for_def)
  with n have "list_ex is_start (assembled_nodes page masters)" by (auto simp: list_ex_iff)
  then show ?thesis by (simp add: fallback_fires_def)
qed

section \<open>The claims on the start shape\<close>



section \<open>Scenario B\<close>

text \<open>
  C6, as the claim states it, fails: without the stencil catalog the shape labelled
  Resolved is not emitted as a question.
\<close>

theorem scenario_B_resolved_not_question:
  "case parseVisioXml (scenario_page 4 9 4 7 4 5) None of
     Inl e \<Rightarrow> False
   | Inr (ns, es) \<Rightarrow> title (ns ! 2) = ''Resolved'' \<and> type (ns ! 2) \<noteq> Question"
  by code_simp

text \<open>
  C6 (amended): in scenario B, wherever the three shapes lie, no shape has stencil
  information, so each is classified by its label alone; Begin is the start node and
  Card valid? has no keyword, both are questions; the label Resolved contains the
  keyword \<^verbatim>\<open>resolv\<close> and shape C is emitted with type result.
\<close>

theorem scenario_B_types:
  "map masterInfo (rawShapes_of (scenario_page xa ya xb yb xc yc) None) = [None, None, None]
   \<and> (case parseVisioXml (scenario_page xa ya xb yb xc yc) None of
         Inl e \<Rightarrow> False
       | Inr (ns, es) \<Rightarrow>
           map (\<lambda>n. (title n, type n, is_start n)) ns
             = [(''Begin'', Question, True), (''Card valid?'', Question, False),
                (''Resolved'', Result, False)])
   \<and> classifyShape None ''Resolved'' = Result
   \<and> str_includes (toLowerCase ''Resolved'') ''resolv''"
  by code_simp

theorem scenario_B_types_witness:
  "case parseVisioXml (scenario_page 4 9 4 7 4 5) None of
     Inl e \<Rightarrow> False
   | Inr (ns, es) \<Rightarrow>
       map (\<lambda>n. (title n, type n, is_start n)) ns
         = [(''Begin'', Question, True), (''Card valid?'', Question, False),
            (''Resolved'', Result, False)]"
  using scenario_B_types [of 4 9 4 7 4 5] by simp

section \<open>The fallback\<close>




section \<open>Node order\<close>



section \<open>Which nodes are flagged\<close>

lemma find_filter_hd: "filter P xs = y # ys \<Longrightarrow> find P xs = Some y"
  by (induction xs) (auto split: if_splits)

lemma smallest_yx_same_pos:
  assumes "smallest_yx ns a" and "b \<in> set ns"
  shows "smallest_yx ns b \<longleftrightarrow> pos_y b = pos_y a \<and> pos_x b = pos_x a"
proof
  assume b: "smallest_yx ns b"
  from assms b have "pos_y a < pos_y b \<or> (pos_y a = pos_y b \<and> pos_x a \<le> pos_x b)"
    by (simp add: smallest_yx_def)
  moreover from assms b have "pos_y b < pos_y a \<or> (pos_y b = pos_y a \<and> pos_x b \<le> pos_x a)"
    by (simp add: smallest_yx_def)
  ultimately show "pos_y b = pos_y a \<and> pos_x b = pos_x a" by auto
next
  assume "pos_y b = pos_y a \<and> pos_x b = pos_x a"
  with assms show "smallest_yx ns b" by (simp add: smallest_yx_def)
qed

text \<open>
  The node the fallback flags is the first, in the order of the node list, of the nodes
  at the smallest position.
\<close>

lemma fallback_fires_first:
  assumes "fallback_fires ns"
  shows "\<exists>n0. find (smallest_yx ns) ns = Some n0 \<and> n0 \<in> set ns
            \<and> fallback_start ns = mark_fallback (tempId n0) ns"
proof -
  from assms have "ns \<noteq> []" by (simp add: fallback_fires_def)
  then obtain s0 rest where srt: "sort_cmp cmp_node ns = s0 # rest"
    by (cases "sort_cmp cmp_node ns") (auto simp: sort_cmp_Nil_iff)
  with assms have fb: "fallback_start ns = mark_fallback (tempId s0) ns"
    by (simp add: fallback_start_def)
  note sm = sort_nodes_hd [OF srt]
  let ?P = "\<lambda>n. pos_y n = pos_y s0 \<and> pos_x n = pos_x s0"
  have "filter ?P ns = filter ?P (sort_cmp cmp_node ns)"
    by (rule sort_nodes_stable [symmetric])
  also have "\<dots> = s0 # filter ?P rest" by (simp add: srt)
  finally have "find ?P ns = Some s0" by (rule find_filter_hd)
  moreover have "find (smallest_yx ns) ns = find ?P ns"
    by (rule find_cong) (simp_all add: smallest_yx_same_pos [OF sm])
  ultimately have "find (smallest_yx ns) ns = Some s0" by simp
  moreover from sm have "s0 \<in> set ns" by (simp add: smallest_yx_def)
  ultimately show ?thesis using fb by blast
qed

lemma mark_fallback_flags:
  assumes "distinct (map tempId ns)" and "n \<in> set ns" and "\<not> list_ex is_start ns"
  shows "map is_start (mark_fallback (tempId n) ns) = map (\<lambda>m. m = n) ns"
  unfolding mark_fallback_map [OF assms(1,2)] using assms(3) by (auto simp: list_ex_iff)

lemma normalized_flags:
  "map is_start (map normalize_node (enumerate 0 ns)) = map gen_is_start ns"
proof -
  have "map is_start (map normalize_node (enumerate 0 ns)) = map (gen_is_start \<circ> snd) (enumerate 0 ns)"
    by (simp add: normalize_is_start comp_def)
  then show ?thesis by (simp only: map_comp_snd_enumerate)
qed

lemma list_ex_map_flags: "list_ex P xs \<longleftrightarrow> True \<in> set (map P xs)"
  by (auto simp: list_ex_iff)

lemma force_first_start_flags:
  "map is_start (force_first_start ns) =
     (if list_ex is_start ns then map is_start ns
      else if ns = [] then [] else True # replicate (length ns - 1) False)"
proof (cases ns)
  case Nil
  then show ?thesis by (simp add: force_first_start_def)
next
  case (Cons n rest)
  show ?thesis
  proof (cases "list_ex is_start ns")
    case True
    with Cons show ?thesis by (simp add: force_first_start_def)
  next
    case False
    with Cons have "\<forall>m \<in> set rest. \<not> is_start m" by (auto simp: list_ex_iff)
    then have "map is_start rest = replicate (length rest) False"
      by (induction rest) auto
    with False Cons show ?thesis by (simp add: force_first_start_def)
  qed
qed

lemma generated_flags:
  "map is_start (generated_nodes data) =
     (if list_ex gen_is_start (gen_nodes data) then map gen_is_start (gen_nodes data)
      else if gen_nodes data = [] then []
      else True # replicate (length (gen_nodes data) - 1) False)"
proof -
  let ?N = "map normalize_node (enumerate 0 (gen_nodes data))"
  have ex: "list_ex is_start ?N \<longleftrightarrow> list_ex gen_is_start (gen_nodes data)"
    unfolding list_ex_map_flags [of is_start] list_ex_map_flags [of gen_is_start]
    by (simp only: normalized_flags)
  have len: "length ?N = length (gen_nodes data)" by simp
  have nil: "?N = [] \<longleftrightarrow> gen_nodes data = []" using len by (metis length_0_conv)
  show ?thesis
    unfolding generated_nodes_def force_first_start_flags ex nil len normalized_flags ..
qed

section \<open>One start node\<close>

text \<open>
  C1, as the claim states it, fails on both paths: the adapter keeps every start flag
  the service sends, and the Visio importer flags every shape that carries the start
  shape's \<^verbatim>\<open>ID\<close>.
\<close>

theorem two_starts_emitted:
  "length (filter is_start (generated_nodes two_start_response)) = 2
   \<and> (case parseVisioXml duplicate_id_page None of
         Inl e \<Rightarrow> False
       | Inr (ns, es) \<Rightarrow> length (filter is_start ns) = 2)"
  by code_simp

text \<open>
  C1 (amended): a graph with at least one node has at least one node with \<open>is_start\<close>,
  and which nodes carry it is fixed as follows.  In the Visio importer step 4 emits one
  node per retained shape and flags exactly those whose shape id equals the start shape
  id (the \<^verbatim>\<open>ID\<close> of the start shape, or \<^verbatim>\<open>null\<close> when that \<^verbatim>\<open>ID\<close> is empty), hence exactly
  one node when the retained shapes carry pairwise different ids; when step 4 flags no
  node, the fallback flags one node and no other: the first, in node order, of the nodes
  at the smallest \<open>pos_y\<close> and, among those, the smallest \<open>pos_x\<close>.  The adapter numbers
  its nodes in the order of the response and emits the flags the response sends; when
  the response flags no node, the first node is flagged and no other.
\<close>

theorem start_nodes_amended:
  "(\<forall>nodes edges. parseVisioXml page masters = Inr (nodes, edges) \<longrightarrow>
      (let I = infer_start (rawEdges_of page masters) (rawShapes_of page masters);
           A = assembled_nodes page masters
       in map visioId A = map shapeId (snd I)
          \<and> map is_start A = map (\<lambda>s. shapeId s = startShapeId_of (fst I)) (snd I)
          \<and> map tempId nodes = map tempId A \<and> map visioId nodes = map visioId A
          \<and> (\<not> fallback_fires A \<longrightarrow> nodes = A)
          \<and> (fallback_fires A \<longrightarrow>
               (\<exists>n. find (smallest_yx A) A = Some n \<and> map is_start nodes = map (\<lambda>m. m = n) A))
          \<and> (nodes \<noteq> [] \<longrightarrow>
               1 \<le> length (filter is_start nodes)
               \<and> (distinct (map shapeId (rawShapes_of page masters)) \<longrightarrow>
                    length (filter is_start nodes) = 1))))
   \<and> map tempId (generated_nodes data) = map import_node_id [0..<length (gen_nodes data)]
   \<and> map is_start (generated_nodes data) =
       (if list_ex gen_is_start (gen_nodes data) then map gen_is_start (gen_nodes data)
        else if gen_nodes data = [] then []
        else True # replicate (length (gen_nodes data) - 1) False)
   \<and> (generated_nodes data \<noteq> [] \<longrightarrow>
        length (filter is_start (generated_nodes data))
          = max 1 (length (filter gen_is_start (gen_nodes data))))"
proof -
  let ?I = "infer_start (rawEdges_of page masters) (rawShapes_of page masters)"
  let ?A = "assembled_nodes page masters"
  have a1: "map visioId ?A = map shapeId (snd ?I)"
    unfolding assembled_nodes_eq by (rule nodes_for_visioId)
  have a2: "map is_start ?A = map (\<lambda>s. shapeId s = startShapeId_of (fst ?I)) (snd ?I)"
    unfolding assembled_nodes_eq by (rule nodes_for_is_start)
  have d: "distinct (map tempId ?A)" unfolding assembled_nodes_eq by (rule nodes_for_distinct)
  have v: "map tempId nodes = map tempId ?A \<and> map visioId nodes = map visioId ?A
          \<and> (\<not> fallback_fires ?A \<longrightarrow> nodes = ?A)
          \<and> (fallback_fires ?A \<longrightarrow>
               (\<exists>n. find (smallest_yx ?A) ?A = Some n \<and> map is_start nodes = map (\<lambda>m. m = n) ?A))
          \<and> (nodes \<noteq> [] \<longrightarrow>
               1 \<le> length (filter is_start nodes)
               \<and> (distinct (map shapeId (rawShapes_of page masters)) \<longrightarrow>
                    length (filter is_start nodes) = 1))"
    if p: "parseVisioXml page masters = Inr (nodes, edges)" for nodes edges
  proof -
    note nodes = parseVisioXml_nodes [OF p]
    have f: "map tempId nodes = map tempId ?A \<and> map visioId nodes = map visioId ?A"
      unfolding nodes using fallback_start_fields [of ?A] by simp
    have idle: "\<not> fallback_fires ?A \<longrightarrow> nodes = ?A"
      unfolding nodes by (simp add: fallback_start_idle)
    have fires: "fallback_fires ?A \<longrightarrow>
               (\<exists>n. find (smallest_yx ?A) ?A = Some n \<and> map is_start nodes = map (\<lambda>m. m = n) ?A)"
    proof
      assume ff: "fallback_fires ?A"
      from fallback_fires_first [OF ff] obtain n0
        where n0: "find (smallest_yx ?A) ?A = Some n0" "n0 \<in> set ?A"
          "fallback_start ?A = mark_fallback (tempId n0) ?A" by blast
      from ff have none: "\<not> list_ex is_start ?A" by (simp add: fallback_fires_def)
      from mark_fallback_flags [OF d n0(2) none] n0
      show "\<exists>n. find (smallest_yx ?A) ?A = Some n \<and> map is_start nodes = map (\<lambda>m. m = n) ?A"
        unfolding nodes by auto
    qed
    have cnt: "nodes \<noteq> [] \<longrightarrow>
               1 \<le> length (filter is_start nodes)
               \<and> (distinct (map shapeId (rawShapes_of page masters)) \<longrightarrow>
                    length (filter is_start nodes) = 1)"
    proof
      assume ne: "nodes \<noteq> []"
      note c = visio_start_count [OF p ne]
      have le: "distinct (map shapeId (rawShapes_of page masters)) \<longrightarrow>
        length (filter (\<lambda>s. shapeId s = startShapeId_of (fst ?I)) (rawShapes_of page masters)) \<le> 1"
        using distinct_map_filter_le1 [of shapeId "rawShapes_of page masters"] by blast
      from c le show "1 \<le> length (filter is_start nodes)
               \<and> (distinct (map shapeId (rawShapes_of page masters)) \<longrightarrow>
                    length (filter is_start nodes) = 1)"
        by auto
    qed
    from f idle fires cnt show ?thesis by blast
  qed
  from a1 a2 v generated_nodes_tempId [of data] generated_flags [of data] generated_start_count [of data]
  show ?thesis unfolding Let_def by blast
qed

theorem start_nodes_amended_witness:
  "(\<exists>nodes edges. parseVisioXml cycle_page None = Inr (nodes, edges)
       \<and> nodes = assembled_nodes cycle_page None \<and> length (filter is_start nodes) = 1)
   \<and> (\<exists>nodes edges n. parseVisioXml empty_id_page None = Inr (nodes, edges)
       \<and> find (smallest_yx (assembled_nodes empty_id_page None)) (assembled_nodes empty_id_page None)
           = Some n
       \<and> title n = ''Ask''
       \<and> map is_start nodes = map (\<lambda>m. m = n) (assembled_nodes empty_id_page None)
       \<and> map is_start nodes = [True, False])
   \<and> map is_start (generated_nodes unflagged_response) = [True, False]
   \<and> map is_start (generated_nodes two_start_response) = [True, True]
   \<and> length (filter is_start (generated_nodes two_start_response)) = 2"
proof -
  have r1: "\<not> thrown (build_connectorMap (connects cycle_page))" by code_simp
  then obtain n1 e1 where p1: "parseVisioXml cycle_page None = Inr (n1, e1)"
    using parseVisioXml_returns [of cycle_page None] by blast
  have h1: "\<not> fallback_fires (assembled_nodes cycle_page None)
            \<and> assembled_nodes cycle_page None \<noteq> []
            \<and> distinct (map shapeId (rawShapes_of cycle_page None))" by code_simp
  from p1 h1 start_nodes_amended [of cycle_page None unflagged_response]
  have c1: "n1 = assembled_nodes cycle_page None \<and> length (filter is_start n1) = 1"
    unfolding Let_def by metis
  have r2: "case parseVisioXml empty_id_page None of
              Inl e \<Rightarrow> False | Inr (ns, es) \<Rightarrow> map is_start ns = [True, False]" by code_simp
  then obtain n2 e2 where p2: "parseVisioXml empty_id_page None = Inr (n2, e2)"
    and s2: "map is_start n2 = [True, False]"
    by (cases "parseVisioXml empty_id_page None") auto
  have h2: "fallback_fires (assembled_nodes empty_id_page None)" by code_simp
  from p2 h2 start_nodes_amended [of empty_id_page None unflagged_response]
  obtain n where n: "find (smallest_yx (assembled_nodes empty_id_page None))
                       (assembled_nodes empty_id_page None) = Some n"
      "map is_start n2 = map (\<lambda>m. m = n) (assembled_nodes empty_id_page None)"
    unfolding Let_def by metis
  have "case find (smallest_yx (assembled_nodes empty_id_page None))
               (assembled_nodes empty_id_page None) of
          None \<Rightarrow> False | Some m \<Rightarrow> title m = ''Ask''" by code_simp
  with n(1) have t: "title n = ''Ask''" by simp
  have h3: "\<not> list_ex gen_is_start (gen_nodes unflagged_response)
            \<and> gen_nodes unflagged_response \<noteq> []
            \<and> True # replicate (length (gen_nodes unflagged_response) - 1) False = [True, False]"
    by code_simp
  with start_nodes_amended [of cycle_page None unflagged_response]
  have c3: "map is_start (generated_nodes unflagged_response) = [True, False]" by simp
  have h4: "list_ex gen_is_start (gen_nodes two_start_response)
            \<and> map gen_is_start (gen_nodes two_start_response) = [True, True]
            \<and> generated_nodes two_start_response \<noteq> []
            \<and> max 1 (length (filter gen_is_start (gen_nodes two_start_response))) = 2"
    by code_simp
  with start_nodes_amended [of cycle_page None two_start_response]
  have c4: "map is_start (generated_nodes two_start_response) = [True, True]
            \<and> length (filter is_start (generated_nodes two_start_response)) = 2" by simp
  from p1 c1 have w1: "\<exists>nodes edges. parseVisioXml cycle_page None = Inr (nodes, edges)
       \<and> nodes = assembled_nodes cycle_page None \<and> length (filter is_start nodes) = 1"
    by auto
  from p2 n t s2 have w2: "\<exists>nodes edges n. parseVisioXml empty_id_page None = Inr (nodes, edges)
       \<and> find (smallest_yx (assembled_nodes empty_id_page None)) (assembled_nodes empty_id_page None)
           = Some n
       \<and> title n = ''Ask''
       \<and> map is_start nodes = map (\<lambda>m. m = n) (assembled_nodes empty_id_page None)
       \<and> map is_start nodes = [True, False]"
    by simp
  from w1 w2 c3 c4 show ?thesis by (intro conjI) simp_all
qed

section \<open>The start node is a question\<close>

text \<open>
  Every node emitted with \<open>is_start\<close> has type question, and the shape step 3 chose is
  emitted as such a node, whatever \<open>classifyShape\<close> or the terminator flag say about it,
  unless its \<^verbatim>\<open>ID\<close> attribute is the empty string.
\<close>

lemma start_shape_is_question_unless_empty_id:
  assumes "parseVisioXml page masters = Inr (nodes, edges)"
  shows "(\<forall>n \<in> set nodes. is_start n \<longrightarrow> type n = Question)
   \<and> (\<forall>s. fst (infer_start (rawEdges_of page masters) (rawShapes_of page masters)) = Some s
            \<and> shapeId s \<noteq> Some [] \<longrightarrow>
          (\<exists>n \<in> set nodes.
             visioId n = shapeId s \<and> title n = label s \<and> is_start n \<and> type n = Question))"
proof -
  let ?I = "infer_start (rawEdges_of page masters) (rawShapes_of page masters)"
  let ?A = "assembled_nodes page masters"
  note nodes = parseVisioXml_nodes [OF assms]
  have q: "\<forall>n \<in> set nodes. is_start n \<longrightarrow> type n = Question"
    unfolding nodes
    by (rule fallback_start_question) (auto dest: assembled_start_question)
  have c: "\<exists>n \<in> set nodes.
             visioId n = shapeId s \<and> title n = label s \<and> is_start n \<and> type n = Question"
    if st: "fst ?I = Some s" and id: "shapeId s \<noteq> Some []" for s
  proof -
    from infer_start_fst_mem [OF st] have "s \<in> set (snd ?I)" by (simp add: infer_start_set)
    from nodes_for_mem [OF this] obtain i
      where mem: "node_for (startShapeId_of (fst ?I)) i s \<in> set ?A"
      unfolding assembled_nodes_eq by blast
    let ?n = "node_for (startShapeId_of (fst ?I)) i s"
    from st id have sid: "startShapeId_of (fst ?I) = shapeId s"
      by (simp add: startShapeId_of_chosen)
    have props: "visioId ?n = shapeId s \<and> title ?n = label s \<and> is_start ?n \<and> type ?n = Question"
      by (simp add: node_for_def node_type_for_def sid)
    with mem have "list_ex is_start ?A" by (auto simp: list_ex_iff)
    then have "fallback_start ?A = ?A" by (simp add: fallback_start_idle fallback_fires_def)
    with mem props show ?thesis unfolding nodes by auto
  qed
  from q c show ?thesis by blast
qed

text \<open>
  C4: the shape chosen as the start node is always emitted with type question.  The
  importer breaks it on a page whose start shape has the empty string as its \<^verbatim>\<open>ID\<close>:
  with the stencil catalog of scenario A, the terminator labelled Done has no incoming
  wire and is the shape step 3 chooses, \<^verbatim>\<open>startShape?.shapeId || null\<close> is \<^verbatim>\<open>null\<close>, step 4
  flags no node and emits Done with type result, and the fallback makes Check the start
  node.
\<close>

theorem empty_id_start_shape_is_result:
  "(case fst (infer_start (rawEdges_of empty_id_terminator_page (Some scenario_masters))
                (rawShapes_of empty_id_terminator_page (Some scenario_masters))) of
      None \<Rightarrow> False
    | Some s \<Rightarrow> label s = ''Done'' \<and> shapeId s = Some [] \<and> isTerminator s)
   \<and> startShapeId_of (fst (infer_start (rawEdges_of empty_id_terminator_page (Some scenario_masters))
                (rawShapes_of empty_id_terminator_page (Some scenario_masters)))) = None
   \<and> (case parseVisioXml empty_id_terminator_page (Some scenario_masters) of
         Inl e \<Rightarrow> False
       | Inr (ns, es) \<Rightarrow>
           map (\<lambda>n. (title n, type n, is_start n)) ns
             = [(''Done'', Result, False), (''Check'', Question, True)])"
  by code_simp

section \<open>Connection records\<close>

text \<open>
  C9, as the claim states it, fails.  A record whose discriminator is neither 9 nor 12
  is not ignored: it gives its connector id an entry with no ends, and the labelled
  shape with that id, here Note, is then taken for a connector and dropped.  And a
  record whose connector id is \<^verbatim>\<open>__proto__\<close> is merged into no entry: it writes its end
  onto \<^verbatim>\<open>Object.prototype\<close>, from where connector 5, which has a record for its target
  end only, reads a source end and becomes an edge.
\<close>

theorem other_discriminator_not_ignored:
  "entries (build_connectorMap (connects glued_page)) ''5''
     = Some \<lparr> from_end = None, to_end = None \<rparr>
   \<and> entries (build_connectorMap []) ''5'' = None
   \<and> (case parseVisioXml glued_page None of
         Inl e \<Rightarrow> False | Inr (ns, es) \<Rightarrow> map title ns = [''Step''])
   \<and> (case parseVisioXml (glued_page \<lparr> connects := [] \<rparr>) None of
         Inl e \<Rightarrow> False | Inr (ns, es) \<Rightarrow> map title ns = [''Step'', ''Note''])
   \<and> entries (build_connectorMap (connects prototype_page)) ''__proto__'' = None
   \<and> prototype (build_connectorMap (connects prototype_page))
        = \<lparr> from_end = Some (Some ''1''), to_end = None \<rparr>
   \<and> entries (build_connectorMap (connects prototype_page)) ''5''
        = Some \<lparr> from_end = None, to_end = Some (Some ''2'') \<rparr>
   \<and> resolved_wire (build_connectorMap (connects prototype_page)) (Some ''5'') = Some (''1'', ''2'')"
  by code_simp

text \<open>
  C9 (amended): when no record has for connector id one of the names every object
  inherits (\<^verbatim>\<open>constructor\<close>, \<^verbatim>\<open>toString\<close>, \<^verbatim>\<open>__proto__\<close> and the others of
  \<open>Object_prototype_keys\<close>), the loop raises nothing, leaves the built-in objects as
  they were, and the wiring table has one entry for every connector id that occurs as
  \<^verbatim>\<open>FromSheet\<close> of some record, whatever the record's discriminator.  The entry's source
  end is the \<^verbatim>\<open>ToSheet\<close> of the last record of that connector with discriminator 9, its
  target end that of the last one with discriminator 12; a record with another
  discriminator sets neither end.  A lookup in that table is true for the connector ids
  of the records and for the inherited names, and for no other key.
\<close>

theorem wiring_table:
  assumes "\<forall>c \<in> set cs. key_of (FromSheet c) \<notin> set Object_prototype_keys"
  shows "build_connectorMap cs =
     \<lparr> entries = (\<lambda>k. if k \<in> key_of ` FromSheet ` set cs
                       then Some \<lparr> from_end = last_end ''9'' k cs, to_end = last_end ''12'' k cs \<rparr>
                       else None),
       function_ends = Map.empty, prototype = no_ends, thrown = False \<rparr>
     \<and> (\<forall>k. truthy_found (lookup (build_connectorMap cs) k)
              \<longleftrightarrow> k \<in> key_of ` FromSheet ` set cs \<or> k \<in> set Object_prototype_keys)"
proof -
  note t = build_connectorMap_plain [OF assms]
  have "truthy_found (lookup (build_connectorMap cs) k)
          \<longleftrightarrow> k \<in> key_of ` FromSheet ` set cs \<or> k \<in> set Object_prototype_keys" for k
  proof (cases "k \<in> key_of ` FromSheet ` set cs")
    case True
    then show ?thesis unfolding t by (simp add: lookup_def)
  next
    case False
    then have e: "entries (build_connectorMap cs) k = None" unfolding t by simp
    have p: "prototype (build_connectorMap cs) = no_ends" unfolding t by simp
    show ?thesis
    proof (cases "k \<in> set Object_prototype_keys")
      case inh: True
      then have "k \<in> set Object_function_keys \<or> k = ''__proto__''"
        by (auto simp: Object_prototype_keys_def Object_function_keys_def)
      with False e inh show ?thesis by (auto simp: lookup_def)
    next
      case plain: False
      with False e lookup_plain [OF p plain] show ?thesis by simp
    qed
  qed
  with t show ?thesis by blast
qed

theorem wiring_table_witness:
  "entries (build_connectorMap (connects scenario_C_page)) ''4''
     = Some \<lparr> from_end = Some (Some ''1''), to_end = Some (Some ''2'') \<rparr>
   \<and> entries (build_connectorMap (connects scenario_C_page)) ''5''
     = Some \<lparr> from_end = Some (Some ''2''), to_end = None \<rparr>
   \<and> entries (build_connectorMap (connects scenario_C_page)) ''1'' = None
   \<and> prototype (build_connectorMap (connects scenario_C_page)) = no_ends
   \<and> \<not> thrown (build_connectorMap (connects scenario_C_page))
   \<and> truthy_found (lookup (build_connectorMap (connects scenario_C_page)) ''5'')
   \<and> truthy_found (lookup (build_connectorMap (connects scenario_C_page)) ''constructor'')
   \<and> \<not> truthy_found (lookup (build_connectorMap (connects scenario_C_page)) ''1'')"
proof -
  have h: "\<forall>c \<in> set (connects scenario_C_page). key_of (FromSheet c) \<notin> set Object_prototype_keys"
    by code_simp
  have k: "''4'' \<in> key_of ` FromSheet ` set (connects scenario_C_page)
        \<and> last_end ''9'' ''4'' (connects scenario_C_page) = Some (Some ''1'')
        \<and> last_end ''12'' ''4'' (connects scenario_C_page) = Some (Some ''2'')
        \<and> ''5'' \<in> key_of ` FromSheet ` set (connects scenario_C_page)
        \<and> last_end ''9'' ''5'' (connects scenario_C_page) = Some (Some ''2'')
        \<and> last_end ''12'' ''5'' (connects scenario_C_page) = None
        \<and> ''1'' \<notin> key_of ` FromSheet ` set (connects scenario_C_page)
        \<and> ''constructor'' \<in> set Object_prototype_keys
        \<and> ''1'' \<notin> set Object_prototype_keys"
    by code_simp
  note w = wiring_table [OF h]
  from w have eq: "build_connectorMap (connects scenario_C_page) =
     \<lparr> entries = (\<lambda>k. if k \<in> key_of ` FromSheet ` set (connects scenario_C_page)
                       then Some \<lparr> from_end = last_end ''9'' k (connects scenario_C_page),
                                   to_end = last_end ''12'' k (connects scenario_C_page) \<rparr>
                       else None),
       function_ends = Map.empty, prototype = no_ends, thrown = False \<rparr>"
    by (rule conjunct1)
  have e: "entries (build_connectorMap (connects scenario_C_page)) =
      (\<lambda>k. if k \<in> key_of ` FromSheet ` set (connects scenario_C_page)
            then Some \<lparr> from_end = last_end ''9'' k (connects scenario_C_page),
                        to_end = last_end ''12'' k (connects scenario_C_page) \<rparr>
            else None)"
    by (subst eq) (rule wiring.select_convs)
  have p: "prototype (build_connectorMap (connects scenario_C_page)) = no_ends"
    by (subst eq) (rule wiring.select_convs)
  have t: "\<not> thrown (build_connectorMap (connects scenario_C_page))"
    by (subst eq) (simp only: wiring.select_convs, simp)
  from w have l: "\<And>k. truthy_found (lookup (build_connectorMap (connects scenario_C_page)) k)
              \<longleftrightarrow> k \<in> key_of ` FromSheet ` set (connects scenario_C_page)
                  \<or> k \<in> set Object_prototype_keys"
    by (rule conjunct2 [THEN spec])
  from k t show ?thesis by (simp only: e l p) simp
qed

section \<open>Scenario C\<close>

text \<open>
  A connector shape for which step 2 reads no two ends contributes nothing: the
  importer's and the handler's outcomes are those of the same document without the
  shape, and no warning of the handler counts dropped connections.
\<close>

lemma connector_without_both_ends:
  assumes "is_connector_shape (parseMasters masters) (build_connectorMap (connects page)) sh"
    and "resolved_wire (build_connectorMap (connects page)) (shape_ID sh) = None"
    and "shapes page = pre @ sh # post"
  shows "parseVisioXml page masters = parseVisioXml (page \<lparr> shapes := pre @ post \<rparr>) masters
         \<and> handleFile (Some page) masters
             = handleFile (Some (page \<lparr> shapes := pre @ post \<rparr>)) masters
         \<and> (\<forall>ns es ws. handleFile (Some page) masters = Inr (ns, es, ws)
                \<longrightarrow> (\<forall>k. DroppedEdges k \<notin> set ws))"
proof -
  let ?q = "page \<lparr> shapes := pre @ post \<rparr>"
  from collect_shapes_one_sided [OF assms(1,2)] assms(3)
  have c: "collect_shapes (parseMasters masters) (build_connectorMap (connects page)) (shapes page)
         = collect_shapes (parseMasters masters) (build_connectorMap (connects ?q)) (shapes ?q)"
    by simp
  then have "rawEdges_of page masters = rawEdges_of ?q masters"
    and "rawShapes_of page masters = rawShapes_of ?q masters"
    by (simp_all add: rawEdges_of_def rawShapes_of_def)
  with parseVisioXml_cong [of page ?q masters]
  have p: "parseVisioXml page masters = parseVisioXml ?q masters" by simp
  from p handleFile_cong [OF p] handleFile_warnings [of page masters] show ?thesis by blast
qed

text \<open>
  C7: a connector with one end only contributes no edge, a warning counts it, and the
  import raises no error.  In scenario C connector 5 has no record for its target end;
  the import succeeds with the one edge of connector 4, and its warnings are the one
  about the missing masters file: nothing counts the dropped connector, whereas the
  text-to-flow adapter counts the connections it drops.  After a record whose connector
  id is \<^verbatim>\<open>__proto__\<close>, connector 5 of the second page, which has a record for its target
  end only, is not dropped either: it is emitted as an edge from Begin to Card valid?.
\<close>

theorem one_sided_connector_not_counted:
  "entries (build_connectorMap (connects scenario_C_page)) ''5''
     = Some \<lparr> from_end = Some (Some ''2''), to_end = None \<rparr>
   \<and> (case handleFile (Some scenario_C_page) None of
         Inl e \<Rightarrow> False
       | Inr (ns, es, ws) \<Rightarrow> length ns = 3 \<and> length es = 1 \<and> ws = [NoMastersFile])
   \<and> (case handleGenerate dangling_edge_response of
         Inl e \<Rightarrow> False
       | Inr (ns, es, ws) \<Rightarrow> es = [] \<and> ws = [DroppedEdges 1])
   \<and> entries (build_connectorMap (connects prototype_page)) ''5''
        = Some \<lparr> from_end = None, to_end = Some (Some ''2'') \<rparr>
   \<and> (case handleFile (Some prototype_page) None of
         Inl e \<Rightarrow> False
       | Inr (ns, es, ws) \<Rightarrow>
           map title ns = [''Begin'', ''Card valid?'']
           \<and> map (\<lambda>e. (sourceId e, targetId e)) es
               = [(Some (TempId ''import-node-0''), Some (TempId ''import-node-1''))]
           \<and> ws = [NoMastersFile])"
  by code_simp

section \<open>Clamped coordinates\<close>

text \<open>
  C8, as the claim states it, fails: the lower bound is 20, not 0.  A node sent with
  position (5, -3) is emitted at (20, 20), where clamping at 0 would give (5, 0).
\<close>

theorem coordinates_not_clamped_at_zero:
  "gen_x (gen_nodes positioned_response ! 0) = Some 5
   \<and> gen_y (gen_nodes positioned_response ! 0) = Some (- 3)
   \<and> pos_x (generated_nodes positioned_response ! 0) = 20
   \<and> pos_y (generated_nodes positioned_response ! 0) = 20
   \<and> pos_x (generated_nodes positioned_response ! 0) \<noteq> max 0 5
   \<and> pos_y (generated_nodes positioned_response ! 0) \<noteq> max 0 (- 3)"
  by code_simp

text \<open>
  C8 (amended): in the adapter every emitted node's coordinate is the input coordinate,
  or the computed default \<open>(i mod 4) * 300 + 60\<close> (for y \<open>(i div 4) * 180 + 60\<close>) when the
  input has no number there, clamped to a minimum of 20.
\<close>

theorem coordinates_clamped_at_20:
  assumes "i < length (gen_nodes data)"
  shows "pos_x (generated_nodes data ! i)
           = max 20 (case gen_x (gen_nodes data ! i) of
                       Some x \<Rightarrow> x | None \<Rightarrow> real ((i mod 4) * 300 + 60))
       \<and> pos_y (generated_nodes data ! i)
           = max 20 (case gen_y (gen_nodes data ! i) of
                       Some y \<Rightarrow> y | None \<Rightarrow> real ((i div 4) * 180 + 60))
       \<and> 20 \<le> pos_x (generated_nodes data ! i) \<and> 20 \<le> pos_y (generated_nodes data ! i)"
  using generated_nodes_pos [OF assms] by (simp add: normalize_node_def)

theorem coordinates_clamped_at_20_witness:
  "pos_x (generated_nodes positioned_response ! 0) = max 20 5
   \<and> pos_y (generated_nodes positioned_response ! 0) = max 20 (- 3)
   \<and> pos_x (generated_nodes positioned_response ! 1) = max 20 (real ((1 mod 4) * 300 + 60))
   \<and> pos_y (generated_nodes positioned_response ! 1) = max 20 (real ((1 div 4) * 180 + 60))"
proof -
  have l0: "0 < length (gen_nodes positioned_response)"
    and l1: "1 < length (gen_nodes positioned_response)"
    by (simp_all add: positioned_response_def)
  have g: "gen_x (gen_nodes positioned_response ! 0) = Some 5
         \<and> gen_y (gen_nodes positioned_response ! 0) = Some (- 3)
         \<and> gen_x (gen_nodes positioned_response ! 1) = None
         \<and> gen_y (gen_nodes positioned_response ! 1) = None"
    by (simp add: positioned_response_def ex_gen_node_def)
  from coordinates_clamped_at_20 [OF l0] coordinates_clamped_at_20 [OF l1] g
  show ?thesis by simp
qed

section \<open>Referential integrity of edges\<close>

text \<open>
  C2: every edge's \<open>sourceId\<close> and \<open>targetId\<close> is the \<open>tempId\<close> of a node of the same
  graph, an edge that does not resolve being dropped.  The adapter breaks it at the
  response \<^verbatim>\<open>{ nodes: [{ id: "a", is_start: true }], edges: [{ source: "constructor",
  target: "a" }] }\<close>: no node is called \<^verbatim>\<open>constructor\<close>, yet the edge is emitted, its
  \<open>sourceId\<close> the inherited member and not a node's \<open>tempId\<close>, and no dropped
  connection is counted.  The Visio importer does the same with a connector whose target
  end is \<^verbatim>\<open>toString\<close>.
\<close>

theorem inherited_member_as_edge_end:
  "generated_edges inherited_key_response
     = [\<lparr> edge_tempId = ''import-edge-0'', sourceId = Some (Inherited ''constructor''),
          targetId = Some (TempId ''import-node-0''), edge_label = [] \<rparr>]
   \<and> map tempId (generated_nodes inherited_key_response) = [''import-node-0'']
   \<and> (case handleGenerate inherited_key_response of
         Inl e \<Rightarrow> False
       | Inr (ns, es, ws) \<Rightarrow> length es = 1 \<and> ws = [])
   \<and> (case parseVisioXml inherited_target_page None of
         Inl e \<Rightarrow> False
       | Inr (ns, es) \<Rightarrow>
           es = [\<lparr> edge_tempId = ''import-edge-0'', sourceId = Some (TempId ''import-node-0''),
                   targetId = Some (Inherited ''toString''), edge_label = [] \<rparr>]
           \<and> map tempId ns = [''import-node-0''])"
  by code_simp

end
